theory Spec2Isabelle
  imports Main "HOL-Library.Product_Lexorder"
begin

section \<open>Lexicographic shortest paths with dynamic updates\<close>

text \<open>
  A shallow embedding of \<^verbatim>\<open>include/LexiPathEngine.h\<close> and \<^verbatim>\<open>src/LexiPathEngine.cpp\<close>.

  Conventions of the embedding.
  \<^item> C++ \<^verbatim>\<open>int\<close> and \<^verbatim>\<open>long long\<close> values are HOL integers. The addition on
    \<^verbatim>\<open>long long\<close> in \<open>relax\<close> and the increment in the constructor of the graph check
    their range and yield \<open>Overflow\<close> outside it. The conversions
    \<^verbatim>\<open>static_cast<int>(edges_.size())\<close> and \<^verbatim>\<open>static_cast<int>(adj_.size())\<close> are the
    lengths themselves, which is exact below \<open>2 ^ 31\<close> elements; \<open>graph_ok\<close> bounds both
    vectors by that, and the properties that depend on them are stated within that bound.
  \<^item> Private members lose the trailing underscore, which Isabelle does not allow, and take
    the prefix \<open>m_\<close>: \<^verbatim>\<open>edges_\<close> is \<open>m_edges\<close>, \<^verbatim>\<open>dist_\<close> is \<open>m_dist\<close>, and so on.
  \<^item> Methods take the object and return the updated object next to their result.
  \<^item> An access \<^verbatim>\<open>xs[static_cast<std::size_t>(i)]\<close> outside the vector is the value
    \<open>Inl OutOfBounds\<close>: a negative \<^verbatim>\<open>int\<close> converts to an index beyond every vector.
  \<^item> The engine's reference \<^verbatim>\<open>g_\<close> is the field \<open>m_g\<close>: the engine record carries the graph
    it refers to.
\<close>

datatype error = OutOfBounds | Overflow | LengthError

text \<open>
  \<open>at_index\<close> is \<^verbatim>\<open>xs[static_cast<std::size_t>(i)]\<close>; \<open>resize\<close> is \<^verbatim>\<open>std::vector::resize\<close>
  with a fill value.
\<close>

definition at_index :: "'a list \<Rightarrow> int \<Rightarrow> error + 'a" where
  "at_index xs i = (if 0 \<le> i \<and> nat i < length xs then Inr (xs ! nat i) else Inl OutOfBounds)"

definition resize :: "'a list \<Rightarrow> nat \<Rightarrow> 'a \<Rightarrow> 'a list" where
  "resize xs n x = (if length xs < n then xs @ replicate (n - length xs) x else take n xs)"

definition INT_MAX :: int where
  "INT_MAX = 2 ^ 31 - 1"

subsection \<open>DynamicDirectedGraph\<close>

datatype Edge = Edge (edge_u: int) (edge_v: int) (edge_w: int) (alive: bool)

type_synonym Key = "int \<times> int \<times> int"

record DynamicDirectedGraph =
  m_edges :: "Edge list"
  m_adj :: "int list list"
  m_bucket :: "Key \<rightharpoonup> int list"

text \<open>
  The constructor allocates \<^verbatim>\<open>n_initial + 1\<close> adjacency sequences; a negative number
  converts to a size beyond \<^verbatim>\<open>max_size\<close>, which \<^verbatim>\<open>std::vector\<close> refuses.
\<close>

definition DynamicDirectedGraph_init :: "int \<Rightarrow> error + DynamicDirectedGraph" where
  "DynamicDirectedGraph_init n_initial =
     (if 2 ^ 31 \<le> n_initial + 1 then Inl Overflow
      else if n_initial + 1 < 0 then Inl LengthError
      else Inr \<lparr>m_edges = [], m_adj = replicate (nat (n_initial + 1)) [], m_bucket = Map.empty\<rparr>)"

definition ensureNode :: "DynamicDirectedGraph \<Rightarrow> int \<Rightarrow> DynamicDirectedGraph" where
  "ensureNode g x =
     (if x < 0 then g
      else let need = nat x + 1 in
        if length (m_adj g) < need then g\<lparr>m_adj := resize (m_adj g) need []\<rparr> else g)"

definition addEdge :: "DynamicDirectedGraph \<Rightarrow> int \<Rightarrow> int \<Rightarrow> int \<Rightarrow> error + (int \<times> DynamicDirectedGraph)" where
  "addEdge g u v w =
     (let g1 = ensureNode (ensureNode g u) v;
          eid = int (length (m_edges g1));
          g2 = g1\<lparr>m_edges := m_edges g1 @ [Edge u v w True]\<rparr>
      in case at_index (m_adj g2) u of
           Inl err \<Rightarrow> Inl err
         | Inr out \<Rightarrow>
             let g3 = g2\<lparr>m_adj := (m_adj g2)[nat u := out @ [eid]]\<rparr>;
                 b = (case m_bucket g3 (u, v, w) of None \<Rightarrow> [] | Some ids \<Rightarrow> ids)
             in Inr (eid, g3\<lparr>m_bucket := (m_bucket g3)((u, v, w) \<mapsto> b @ [eid])\<rparr>))"

definition removeEdge :: "DynamicDirectedGraph \<Rightarrow> int \<Rightarrow> int \<Rightarrow> int \<Rightarrow> error + (bool \<times> DynamicDirectedGraph)" where
  "removeEdge g u v w =
     (case m_bucket g (u, v, w) of
        None \<Rightarrow> Inr (False, g)
      | Some ids \<Rightarrow>
          if ids = [] then Inr (False, g)
          else let eid = last ids;
                   g1 = g\<lparr>m_bucket := (m_bucket g)((u, v, w) \<mapsto> butlast ids)\<rparr>
               in case at_index (m_edges g1) eid of
                    Inl err \<Rightarrow> Inl err
                  | Inr e \<Rightarrow>
                      Inr (True, g1\<lparr>m_edges := (m_edges g1)[nat eid := Edge (edge_u e) (edge_v e) (edge_w e) False]\<rparr>))"

definition outEdges :: "DynamicDirectedGraph \<Rightarrow> int \<Rightarrow> int list" where
  "outEdges g u = (if u < 0 \<or> nat u \<ge> length (m_adj g) then [] else m_adj g ! nat u)"

definition edgeById :: "DynamicDirectedGraph \<Rightarrow> int \<Rightarrow> error + Edge" where
  "edgeById g eid = at_index (m_edges g) eid"

definition nodeCapacity :: "DynamicDirectedGraph \<Rightarrow> int" where
  "nodeCapacity g = int (length (m_adj g)) - 1"

definition edgeCount :: "DynamicDirectedGraph \<Rightarrow> nat" where
  "edgeCount g = length (m_edges g)"

subsection \<open>LexiSSSP\<close>

datatype PQItem = PQItem (pq_dist: int) (pq_bottleneck: int) (pq_v: int)

text \<open>\<^verbatim>\<open>PQItem::operator<\<close>.\<close>

definition pq_less :: "PQItem \<Rightarrow> PQItem \<Rightarrow> bool" where
  "pq_less a o' =
     (if pq_dist a \<noteq> pq_dist o' then pq_dist a > pq_dist o'
      else pq_bottleneck a > pq_bottleneck o')"

definition LexiSSSP_INF :: int where
  "LexiSSSP_INF = 2 ^ 62"

record LexiSSSP =
  m_g :: DynamicDirectedGraph
  m_S :: int
  m_dist :: "int list"
  m_bestMax :: "int list"
  m_dirty :: bool

definition LexiSSSP_init :: "DynamicDirectedGraph \<Rightarrow> int \<Rightarrow> LexiSSSP" where
  "LexiSSSP_init g S =
     \<lparr>m_g = g, m_S = S,
      m_dist = replicate (nat (nodeCapacity g + 1)) LexiSSSP_INF,
      m_bestMax = replicate (nat (nodeCapacity g + 1)) INT_MAX,
      m_dirty = True\<rparr>"

definition growToInclude :: "LexiSSSP \<Rightarrow> int \<Rightarrow> LexiSSSP" where
  "growToInclude e x =
     (if x < 0 then e
      else let e1 = e\<lparr>m_g := ensureNode (m_g e) x\<rparr>;
               need = nat x + 1
           in if length (m_dist e1) < need
              then e1\<lparr>m_dist := resize (m_dist e1) need LexiSSSP_INF,
                      m_bestMax := resize (m_bestMax e1) need INT_MAX\<rparr>
              else e1)"

definition addEdgeCmd :: "LexiSSSP \<Rightarrow> int \<Rightarrow> int \<Rightarrow> int \<Rightarrow> error + LexiSSSP" where
  "addEdgeCmd e u v w =
     (case addEdge (m_g e) u v w of
        Inl err \<Rightarrow> Inl err
      | Inr (eid, g') \<Rightarrow> Inr ((growToInclude (e\<lparr>m_g := g'\<rparr>) (max u v))\<lparr>m_dirty := True\<rparr>))"

definition removeEdgeCmd :: "LexiSSSP \<Rightarrow> int \<Rightarrow> int \<Rightarrow> int \<Rightarrow> error + LexiSSSP" where
  "removeEdgeCmd e u v w =
     (case removeEdge (m_g e) u v w of
        Inl err \<Rightarrow> Inl err
      | Inr (removed, g') \<Rightarrow>
          Inr (if removed then e\<lparr>m_g := g', m_dirty := True\<rparr> else e\<lparr>m_g := g'\<rparr>))"

definition touch :: "LexiSSSP \<Rightarrow> LexiSSSP" where
  "touch e = e\<lparr>m_dirty := True\<rparr>"

text \<open>
  The state of the loop of \<^verbatim>\<open>recompute\<close>: the two label vectors and the contents of the
  priority queue, in the order they were pushed.
\<close>

type_synonym labels = "int list \<times> int list \<times> PQItem list"

text \<open>
  The body of the \<^verbatim>\<open>for\<close> loop over \<^verbatim>\<open>g_.outEdges(cur.v)\<close>, for one edge id.
\<close>

definition relax :: "DynamicDirectedGraph \<Rightarrow> PQItem \<Rightarrow> int \<Rightarrow> labels \<Rightarrow> error + labels" where
  "relax g cur eid st =
     (case st of (dist, best, pq) \<Rightarrow>
        (case edgeById g eid of
           Inl err \<Rightarrow> Inl err
         | Inr e \<Rightarrow>
             if \<not> alive e then Inr st
             else let nd = pq_dist cur + edge_w e in
               if nd < - (2 ^ 63) \<or> 2 ^ 63 \<le> nd then Inl Overflow
               else let nb = max (pq_bottleneck cur) (edge_w e) in
                 (case at_index dist (edge_v e) of
                    Inl err \<Rightarrow> Inl err
                  | Inr dv \<Rightarrow>
                      if nd < dv then
                        (case at_index best (edge_v e) of
                           Inl err \<Rightarrow> Inl err
                         | Inr bv \<Rightarrow>
                             Inr (dist[nat (edge_v e) := nd], best[nat (edge_v e) := nb],
                                  pq @ [PQItem nd nb (edge_v e)]))
                      else if nd = dv then
                        (case at_index best (edge_v e) of
                           Inl err \<Rightarrow> Inl err
                         | Inr bv \<Rightarrow>
                             if nb < bv then
                               Inr (dist[nat (edge_v e) := nd], best[nat (edge_v e) := nb],
                                    pq @ [PQItem nd nb (edge_v e)])
                             else Inr st)
                      else Inr st)))"

fun relax_edges :: "DynamicDirectedGraph \<Rightarrow> PQItem \<Rightarrow> int list \<Rightarrow> labels \<Rightarrow> error + labels" where
  "relax_edges g cur [] st = Inr st"
| "relax_edges g cur (eid # eids) st =
     (case relax g cur eid st of
        Inl err \<Rightarrow> Inl err
      | Inr st' \<Rightarrow> relax_edges g cur eids st')"

text \<open>
  The test that drops a stale entry: \<^verbatim>\<open>cur.dist != dist_[cur.v] || cur.bottleneck != bestMax_[cur.v]\<close>,
  evaluated left to right.
\<close>

definition stale :: "PQItem \<Rightarrow> int list \<Rightarrow> int list \<Rightarrow> error + bool" where
  "stale cur dist best =
     (case at_index dist (pq_v cur) of
        Inl err \<Rightarrow> Inl err
      | Inr d \<Rightarrow>
          if pq_dist cur \<noteq> d then Inr True
          else (case at_index best (pq_v cur) of
                  Inl err \<Rightarrow> Inl err
                | Inr b \<Rightarrow> Inr (pq_bottleneck cur \<noteq> b)))"

text \<open>
  \<^verbatim>\<open>std::priority_queue<PQItem>\<close> hands out a greatest element under \<^verbatim>\<open>operator<\<close>. Which
  one it hands out among several greatest elements is left to the heap, so the embedding
  takes the choice as a parameter \<open>pqtop\<close>; \<open>valid_top\<close> says that \<open>pqtop\<close> is such a choice.
  \<open>first_top\<close> is the choice of the first greatest element in push order.
\<close>

definition valid_top :: "(PQItem list \<Rightarrow> PQItem) \<Rightarrow> bool" where
  "valid_top pqtop \<longleftrightarrow> (\<forall>pq. pq \<noteq> [] \<longrightarrow> pqtop pq \<in> set pq \<and> (\<forall>x\<in>set pq. \<not> pq_less (pqtop pq) x))"

fun first_top :: "PQItem list \<Rightarrow> PQItem" where
  "first_top [] = PQItem 0 0 0"
| "first_top [x] = x"
| "first_top (x # y # ys) = (let m = first_top (y # ys) in if pq_less x m then m else x)"

text \<open>
  The \<^verbatim>\<open>while (!pq.empty())\<close> loop. The result \<open>None\<close> says that the loop runs forever.
\<close>

partial_function (option) recompute_loop ::
  "(PQItem list \<Rightarrow> PQItem) \<Rightarrow> DynamicDirectedGraph \<Rightarrow> labels \<Rightarrow> (error + labels) option" where
  "recompute_loop pqtop g st =
     (case st of (dist, best, pq) \<Rightarrow>
        if pq = [] then Some (Inr st)
        else let cur = pqtop pq; pq' = remove1 cur pq in
          (case stale cur dist best of
             Inl err \<Rightarrow> Some (Inl err)
           | Inr is_stale \<Rightarrow>
               if is_stale then recompute_loop pqtop g (dist, best, pq')
               else
                 (case relax_edges g cur (outEdges g (pq_v cur)) (dist, best, pq') of
                    Inl err \<Rightarrow> Some (Inl err)
                  | Inr st' \<Rightarrow> recompute_loop pqtop g st')))"

definition recompute :: "(PQItem list \<Rightarrow> PQItem) \<Rightarrow> LexiSSSP \<Rightarrow> (error + LexiSSSP) option" where
  "recompute pqtop e =
     (let e1 = growToInclude e (nodeCapacity (m_g e));
          e2 = e1\<lparr>m_dist := replicate (length (m_dist e1)) LexiSSSP_INF,
                  m_bestMax := replicate (length (m_bestMax e1)) INT_MAX\<rparr>;
          e3 = growToInclude e2 (m_S e2)
      in if \<not> (0 \<le> m_S e3 \<and> nat (m_S e3) < length (m_dist e3) \<and> nat (m_S e3) < length (m_bestMax e3))
         then Some (Inl OutOfBounds)
         else
           (case recompute_loop pqtop (m_g e3)
                   ((m_dist e3)[nat (m_S e3) := 0], (m_bestMax e3)[nat (m_S e3) := 0],
                    [PQItem 0 0 (m_S e3)]) of
              None \<Rightarrow> None
            | Some (Inl err) \<Rightarrow> Some (Inl err)
            | Some (Inr (dist, best, pq)) \<Rightarrow>
                Some (Inr (e3\<lparr>m_dist := dist, m_bestMax := best, m_dirty := False\<rparr>))))"

definition ask :: "(PQItem list \<Rightarrow> PQItem) \<Rightarrow> LexiSSSP \<Rightarrow> int \<Rightarrow> (error + (int \<times> LexiSSSP)) option" where
  "ask pqtop e t =
     (let e1 = growToInclude e t in
      case (if m_dirty e1 then recompute pqtop e1 else Some (Inr e1)) of
        None \<Rightarrow> None
      | Some (Inl err) \<Rightarrow> Some (Inl err)
      | Some (Inr e2) \<Rightarrow>
          (case at_index (m_dist e2) t of
             Inl err \<Rightarrow> Some (Inl err)
           | Inr d \<Rightarrow>
               if d = LexiSSSP_INF then Some (Inr (- 1, e2))
               else (case at_index (m_bestMax e2) t of
                       Inl err \<Rightarrow> Some (Inl err)
                     | Inr b \<Rightarrow> Some (Inr (b, e2)))))"

section \<open>Specification: invariants of the store\<close>

text \<open>
  \<open>bucket_inv\<close>: the bucket of every triple is the list of the ids of the alive records with
  that triple, in the order of insertion. A triple without an entry in the map has the
  empty bucket.
\<close>

definition edge_key :: "Edge \<Rightarrow> Key" where
  "edge_key e = (edge_u e, edge_v e, edge_w e)"

definition bucket_list :: "DynamicDirectedGraph \<Rightarrow> Key \<Rightarrow> int list" where
  "bucket_list g k = (case m_bucket g k of None \<Rightarrow> [] | Some ids \<Rightarrow> ids)"

definition alive_ids :: "Edge list \<Rightarrow> Key \<Rightarrow> nat list" where
  "alive_ids es k = filter (\<lambda>i. alive (es ! i) \<and> edge_key (es ! i) = k) [0..<length es]"

definition bucket_inv :: "DynamicDirectedGraph \<Rightarrow> bool" where
  "bucket_inv g \<longleftrightarrow> (\<forall>k. bucket_list g k = map int (alive_ids (m_edges g) k))"

text \<open>
  Three small stores: the empty one of capacity 1, the same after \<^verbatim>\<open>addEdge(0, 1, 5)\<close>, and
  the empty one after adding \<open>(0, 1, 5)\<close>, \<open>(0, 1, 5)\<close>, \<open>(0, 1, 7)\<close> and \<open>(0, 1, 5)\<close> in this order:
  three alive instances of one triple, with a record of another triple between them.
\<close>

definition G0 :: DynamicDirectedGraph where
  "G0 = \<lparr>m_edges = [], m_adj = [[], []], m_bucket = Map.empty\<rparr>"

definition G1 :: DynamicDirectedGraph where
  "G1 = \<lparr>m_edges = [Edge 0 1 5 True], m_adj = [[0], []], m_bucket = [(0, 1, 5) \<mapsto> [0]]\<rparr>"

definition G4 :: DynamicDirectedGraph where
  "G4 = \<lparr>m_edges = [Edge 0 1 5 True, Edge 0 1 5 True, Edge 0 1 7 True, Edge 0 1 5 True],
         m_adj = [[0, 1, 2, 3], []],
         m_bucket = [(0, 1, 5) \<mapsto> [0, 1, 3], (0, 1, 7) \<mapsto> [2]]\<rparr>"

section \<open>Specification: paths, invariants of the search, command sequences\<close>

text \<open>
  The adjacency index and the edge records agree: every id in the sequence of node \<open>x\<close>
  is the id of a record with source \<open>x\<close>, and every record has its id in the sequence of
  its source and both end points inside the capacity. This is what \<open>addEdge\<close> builds for
  non-negative end points.
\<close>

definition adj_inv :: "DynamicDirectedGraph \<Rightarrow> bool" where
  "adj_inv g \<longleftrightarrow>
     (\<forall>x<length (m_adj g). \<forall>eid\<in>set (m_adj g ! x).
        0 \<le> eid \<and> nat eid < length (m_edges g) \<and> edge_u (m_edges g ! nat eid) = int x) \<and>
     (\<forall>i<length (m_edges g).
        0 \<le> edge_u (m_edges g ! i) \<and> nat (edge_u (m_edges g ! i)) < length (m_adj g) \<and>
        int i \<in> set (m_adj g ! nat (edge_u (m_edges g ! i))) \<and>
        0 \<le> edge_v (m_edges g ! i) \<and> nat (edge_v (m_edges g ! i)) < length (m_adj g))"

text \<open>Weights are non-negative values of type \<^verbatim>\<open>int\<close>.\<close>

definition weights_ok :: "DynamicDirectedGraph \<Rightarrow> bool" where
  "weights_ok g \<longleftrightarrow>
     (\<forall>i<length (m_edges g). 0 \<le> edge_w (m_edges g ! i) \<and> edge_w (m_edges g ! i) \<le> INT_MAX)"

text \<open>
  The well-formed stores: the three invariants, and fewer than \<open>2 ^ 31\<close> node slots and edge
  records, so that ids and the capacity are values of type \<^verbatim>\<open>int\<close>.
\<close>

definition graph_ok :: "DynamicDirectedGraph \<Rightarrow> bool" where
  "graph_ok g \<longleftrightarrow>
     bucket_inv g \<and> adj_inv g \<and> weights_ok g \<and>
     int (length (m_adj g)) < 2 ^ 31 \<and> int (length (m_edges g)) < 2 ^ 31"

text \<open>
  A path is a list of edge ids: \<open>is_path es a p b\<close> says that the records \<open>p\<close> are alive and
  lead from node \<open>a\<close> to node \<open>b\<close>. \<open>path_sum\<close> is its total weight and \<open>path_max\<close> its
  bottleneck, which is 0 for the empty path, as \<^verbatim>\<open>recompute\<close> seeds the source.
\<close>

fun is_path :: "Edge list \<Rightarrow> int \<Rightarrow> nat list \<Rightarrow> int \<Rightarrow> bool" where
  "is_path es a [] b = (a = b)"
| "is_path es a (i # p) b =
     (i < length es \<and> alive (es ! i) \<and> edge_u (es ! i) = a \<and> is_path es (edge_v (es ! i)) p b)"

definition path_sum :: "Edge list \<Rightarrow> nat list \<Rightarrow> int" where
  "path_sum es p = sum_list (map (\<lambda>i. edge_w (es ! i)) p)"

definition path_max :: "Edge list \<Rightarrow> nat list \<Rightarrow> int" where
  "path_max es p = fold (\<lambda>i m. max m (edge_w (es ! i))) p 0"

text \<open>
  The invariants of the loop of \<^verbatim>\<open>recompute\<close>. Labels are compared as pairs, in the
  lexicographic order. A node is settled when its distance is finite and the queue holds no
  entry with its current label: its entry was popped and its edges were relaxed.
\<close>

definition pq_key :: "PQItem \<Rightarrow> int \<times> int" where
  "pq_key i = (pq_dist i, pq_bottleneck i)"

definition settled :: "int list \<Rightarrow> int list \<Rightarrow> PQItem list \<Rightarrow> nat \<Rightarrow> bool" where
  "settled dist best pq x \<longleftrightarrow>
     dist ! x \<noteq> LexiSSSP_INF \<and> PQItem (dist ! x) (best ! x) (int x) \<notin> set pq"

definition settled_set :: "int list \<Rightarrow> int list \<Rightarrow> PQItem list \<Rightarrow> nat set" where
  "settled_set dist best pq = {x. x < length dist \<and> settled dist best pq x}"

text \<open>
  \<open>wf_labels\<close>: the vectors have one length, which covers the store and the source; the
  source has the label \<open>(0, 0)\<close>; labels are non-negative, untouched nodes have the initial
  label, and a finite distance is at most \<open>INT_MAX\<close> times the number of settled nodes, hence
  below \<open>LexiSSSP_INF\<close>; every entry of the queue is for a node in range, is finite and is not
  better than the label of its node; no entry occurs twice.
\<close>

definition wf_labels :: "DynamicDirectedGraph \<Rightarrow> int \<Rightarrow> int list \<Rightarrow> int list \<Rightarrow> PQItem list \<Rightarrow> bool" where
  "wf_labels g S dist best pq \<longleftrightarrow>
     length best = length dist \<and> length (m_adj g) \<le> length dist \<and> int (length dist) \<le> 2 ^ 31 \<and>
     0 \<le> S \<and> nat S < length dist \<and> dist ! nat S = 0 \<and> best ! nat S = 0 \<and>
     (\<forall>x<length dist. 0 \<le> dist ! x \<and> 0 \<le> best ! x \<and>
        (dist ! x = LexiSSSP_INF \<longrightarrow> best ! x = INT_MAX) \<and>
        (dist ! x \<noteq> LexiSSSP_INF \<longrightarrow>
           dist ! x \<le> int (card (settled_set dist best pq)) * INT_MAX)) \<and>
     (\<forall>i\<in>set pq. 0 \<le> pq_v i \<and> nat (pq_v i) < length dist \<and> pq_dist i < LexiSSSP_INF \<and>
        (dist ! nat (pq_v i), best ! nat (pq_v i)) \<le> pq_key i) \<and>
     distinct pq"

text \<open>\<open>mono_inv\<close>: no entry of the queue is better than the label of a settled node.\<close>

definition mono_inv :: "int list \<Rightarrow> int list \<Rightarrow> PQItem list \<Rightarrow> bool" where
  "mono_inv dist best pq \<longleftrightarrow>
     (\<forall>x<length dist. settled dist best pq x \<longrightarrow> (\<forall>i\<in>set pq. (dist ! x, best ! x) \<le> pq_key i))"

text \<open>
  \<open>closed_inv\<close>: the label of a settled node \<open>x\<close> has been offered along each alive edge in
  \<open>proc x\<close>, the out-edges of \<open>x\<close> relaxed so far.
\<close>

definition closed_inv ::
  "Edge list \<Rightarrow> (nat \<Rightarrow> int list) \<Rightarrow> int list \<Rightarrow> int list \<Rightarrow> PQItem list \<Rightarrow> bool" where
  "closed_inv es proc dist best pq \<longleftrightarrow>
     (\<forall>x<length dist. settled dist best pq x \<longrightarrow>
        (\<forall>eid\<in>set (proc x). alive (es ! nat eid) \<longrightarrow>
           (dist ! nat (edge_v (es ! nat eid)), best ! nat (edge_v (es ! nat eid)))
             \<le> (dist ! x + edge_w (es ! nat eid), max (best ! x) (edge_w (es ! nat eid)))))"

text \<open>\<open>sound_inv\<close>: a finite label is the total weight and the bottleneck of some path.\<close>

definition sound_inv :: "Edge list \<Rightarrow> int \<Rightarrow> int list \<Rightarrow> int list \<Rightarrow> bool" where
  "sound_inv es S dist best \<longleftrightarrow>
     (\<forall>x<length dist. dist ! x \<noteq> LexiSSSP_INF \<longrightarrow>
        (\<exists>p. is_path es S p (int x) \<and> path_sum es p = dist ! x \<and> path_max es p = best ! x))"

definition loop_inv ::
  "DynamicDirectedGraph \<Rightarrow> int \<Rightarrow> (nat \<Rightarrow> int list) \<Rightarrow> int list \<Rightarrow> int list \<Rightarrow> PQItem list \<Rightarrow> bool" where
  "loop_inv g S proc dist best pq \<longleftrightarrow>
     wf_labels g S dist best pq \<and> mono_inv dist best pq \<and>
     closed_inv (m_edges g) proc dist best pq \<and> sound_inv (m_edges g) S dist best"

text \<open>
  \<open>cur_inv\<close>, during the loop over the out-edges of the popped entry \<open>cur\<close>: the entry is the
  label of its node, which is settled, and no settled node has a worse label.
\<close>

definition cur_inv :: "PQItem \<Rightarrow> int list \<Rightarrow> int list \<Rightarrow> PQItem list \<Rightarrow> bool" where
  "cur_inv cur dist best pq \<longleftrightarrow>
     0 \<le> pq_v cur \<and> nat (pq_v cur) < length dist \<and>
     pq_key cur = (dist ! nat (pq_v cur), best ! nat (pq_v cur)) \<and>
     settled dist best pq (nat (pq_v cur)) \<and>
     (\<forall>x<length dist. settled dist best pq x \<longrightarrow> (dist ! x, best ! x) \<le> pq_key cur) \<and>
     pq_dist cur + INT_MAX \<le> int (card (settled_set dist best pq)) * INT_MAX"

text \<open>
  The loop terminates: a pop that is not stale settles one more node, and a stale pop
  shortens the queue.
\<close>

definition loop_measure :: "(labels \<times> labels) set" where
  "loop_measure =
     measures [\<lambda>(dist, best, pq). length dist - card (settled_set dist best pq),
               \<lambda>(dist, best, pq). length pq]"

text \<open>
  What \<^verbatim>\<open>recompute\<close> leaves in the cache: a node that a path reaches has the least
  label, in the lexicographic order, among the paths from the source, and it is the label of
  one of them; every other node, also beyond the vectors, has no path and, inside the
  vectors, the initial label.
\<close>

definition optimal :: "Edge list \<Rightarrow> int \<Rightarrow> int list \<Rightarrow> int list \<Rightarrow> bool" where
  "optimal es S dist best \<longleftrightarrow>
     length best = length dist \<and>
     (\<forall>x. if x < length dist \<and> dist ! x \<noteq> LexiSSSP_INF
          then 0 \<le> dist ! x \<and> dist ! x < LexiSSSP_INF \<and> 0 \<le> best ! x \<and>
               (\<exists>p. is_path es S p (int x) \<and> path_sum es p = dist ! x \<and> path_max es p = best ! x) \<and>
               (\<forall>p. is_path es S p (int x) \<longrightarrow>
                    (dist ! x, best ! x) \<le> (path_sum es p, path_max es p))
          else (\<forall>p. \<not> is_path es S p (int x)) \<and> (x < length dist \<longrightarrow> best ! x = INT_MAX))"

text \<open>The length of the label vectors after \<^verbatim>\<open>recompute\<close>.\<close>

definition recompute_size :: "LexiSSSP \<Rightarrow> nat" where
  "recompute_size e = max (max (length (m_dist e)) (length (m_adj (m_g e)))) (nat (m_S e + 1))"

text \<open>
  The well-formed engines: a well-formed store, a source that is a non-negative node id,
  label vectors of one length, and a cache that is right whenever the dirty flag is clear.
  The constructor gives such an engine and every command keeps it so.
\<close>

definition engine_ok :: "LexiSSSP \<Rightarrow> bool" where
  "engine_ok e \<longleftrightarrow>
     graph_ok (m_g e) \<and> 0 \<le> m_S e \<and> m_S e < 2 ^ 31 - 1 \<and>
     length (m_bestMax e) = length (m_dist e) \<and> int (length (m_dist e)) < 2 ^ 31 \<and>
     (\<not> m_dirty e \<longrightarrow> optimal (m_edges (m_g e)) (m_S e) (m_dist e) (m_bestMax e))"

text \<open>
  The commands of \<^verbatim>\<open>runLexiEngineFromString\<close> in \<^verbatim>\<open>src/AlgorithmPlayground.cpp\<close>, after
  parsing. \<open>exec\<close> is its command loop and returns the answers of the \<^verbatim>\<open>ASK\<close> commands in
  order, next to the engine at the end; \<open>runLexiEngine\<close> is the whole function: a graph of
  capacity \<open>N\<close>, the initial edges added to the store, an engine with source \<open>S\<close>, \<open>touch\<close>,
  then the commands.
\<close>

datatype cmd = ADD int int int | REM int int int | ASK int

fun exec :: "(PQItem list \<Rightarrow> PQItem) \<Rightarrow> LexiSSSP \<Rightarrow> cmd list \<Rightarrow> (error + (int list \<times> LexiSSSP)) option" where
  "exec pqtop e [] = Some (Inr ([], e))"
| "exec pqtop e (ADD u v w # cs) =
     (case addEdgeCmd e u v w of
        Inl err \<Rightarrow> Some (Inl err)
      | Inr e' \<Rightarrow> exec pqtop e' cs)"
| "exec pqtop e (REM u v w # cs) =
     (case removeEdgeCmd e u v w of
        Inl err \<Rightarrow> Some (Inl err)
      | Inr e' \<Rightarrow> exec pqtop e' cs)"
| "exec pqtop e (ASK t # cs) =
     (case ask pqtop e t of
        None \<Rightarrow> None
      | Some (Inl err) \<Rightarrow> Some (Inl err)
      | Some (Inr (r, e')) \<Rightarrow>
          (case exec pqtop e' cs of
             None \<Rightarrow> None
           | Some (Inl err) \<Rightarrow> Some (Inl err)
           | Some (Inr (out, e'')) \<Rightarrow> Some (Inr (r # out, e''))))"

fun addEdges :: "DynamicDirectedGraph \<Rightarrow> (int \<times> int \<times> int) list \<Rightarrow> error + DynamicDirectedGraph" where
  "addEdges g [] = Inr g"
| "addEdges g ((u, v, w) # es) =
     (case addEdge g u v w of Inl err \<Rightarrow> Inl err | Inr (eid, g') \<Rightarrow> addEdges g' es)"

definition runLexiEngine ::
  "(PQItem list \<Rightarrow> PQItem) \<Rightarrow> int \<Rightarrow> (int \<times> int \<times> int) list \<Rightarrow> int \<Rightarrow> cmd list \<Rightarrow>
     (error + (int list \<times> LexiSSSP)) option" where
  "runLexiEngine pqtop N es S cs =
     (case DynamicDirectedGraph_init N of
        Inl err \<Rightarrow> Some (Inl err)
      | Inr g0 \<Rightarrow>
          (case addEdges g0 es of
             Inl err \<Rightarrow> Some (Inl err)
           | Inr g \<Rightarrow> exec pqtop (touch (LexiSSSP_init g S)) cs))"

text \<open>Commands whose node ids and weights are non-negative values of type \<^verbatim>\<open>int\<close>.\<close>

fun cmd_ok :: "cmd \<Rightarrow> bool" where
  "cmd_ok (ADD u v w) \<longleftrightarrow>
     0 \<le> u \<and> u < 2 ^ 31 - 1 \<and> 0 \<le> v \<and> v < 2 ^ 31 - 1 \<and> 0 \<le> w \<and> w \<le> INT_MAX"
| "cmd_ok (REM u v w) \<longleftrightarrow> True"
| "cmd_ok (ASK t) \<longleftrightarrow> 0 \<le> t \<and> t < 2 ^ 31 - 1"

text \<open>The store and the engine of the first test of \<^verbatim>\<open>runLexiPathTests\<close>.\<close>

definition G5 :: DynamicDirectedGraph where
  "G5 = \<lparr>m_edges = [Edge 1 2 3 True, Edge 1 3 5 True, Edge 2 4 4 True, Edge 3 4 4 True, Edge 4 5 6 True],
         m_adj = [[], [0, 1], [2], [3], [4], []],
         m_bucket = [(1, 2, 3) \<mapsto> [0], (1, 3, 5) \<mapsto> [1], (2, 4, 4) \<mapsto> [2], (3, 4, 4) \<mapsto> [3],
                     (4, 5, 6) \<mapsto> [4]]\<rparr>"

definition E5 :: LexiSSSP where
  "E5 = touch (LexiSSSP_init G5 1)"

section \<open>Properties of the store\<close>

lemma alive_ids_snoc:
  "alive_ids (es @ [e]) k =
     alive_ids es k @ (if alive e \<and> edge_key e = k then [length es] else [])"
proof -
  have "filter (\<lambda>i. alive ((es @ [e]) ! i) \<and> edge_key ((es @ [e]) ! i) = k) [0..<length es]
        = filter (\<lambda>i. alive (es ! i) \<and> edge_key (es ! i) = k) [0..<length es]"
    by (rule filter_cong) (auto simp: nth_append)
  then show ?thesis
    by (simp add: alive_ids_def)
qed

lemma alive_ids_mem:
  "i \<in> set (alive_ids es k) \<longleftrightarrow> i < length es \<and> alive (es ! i) \<and> edge_key (es ! i) = k"
  by (auto simp: alive_ids_def)

lemma alive_ids_sorted: "sorted (alive_ids es k)"
  unfolding alive_ids_def by (rule sorted_wrt_filter) simp

lemma alive_ids_distinct: "distinct (alive_ids es k)"
  by (simp add: alive_ids_def)

lemma alive_ids_kill:
  assumes "alive_ids es k = xs @ [j]"
  shows "alive_ids (es[j := Edge (edge_u (es ! j)) (edge_v (es ! j)) (edge_w (es ! j)) False]) k' =
           (if k' = k then xs else alive_ids es k')"
proof -
  let ?es' = "es[j := Edge (edge_u (es ! j)) (edge_v (es ! j)) (edge_w (es ! j)) False]"
  have j: "j < length es" "alive (es ! j)" "edge_key (es ! j) = k"
    using assms alive_ids_mem [of j es k] by auto
  have dj: "j \<notin> set xs"
    using alive_ids_distinct [of es k] assms by auto
  have "(alive (?es' ! i) \<and> edge_key (?es' ! i) = k') =
        ((alive (es ! i) \<and> edge_key (es ! i) = k') \<and> i \<noteq> j)" if "i < length es" for i
    using that by (cases "i = j") (simp_all add: edge_key_def)
  then have "alive_ids ?es' k' = filter (\<lambda>i. i \<noteq> j) (alive_ids es k')"
    unfolding alive_ids_def filter_filter
    by (intro filter_cong) auto
  also have "\<dots> = (if k' = k then xs else alive_ids es k')"
  proof (cases "k' = k")
    case True
    then show ?thesis using assms dj by (auto simp: filter_id_conv)
  next
    case False
    then have "j \<notin> set (alive_ids es k')" using j by (simp add: alive_ids_mem)
    then show ?thesis using False by (auto simp: filter_id_conv)
  qed
  finally show ?thesis .
qed

lemma ensureNode_edges [simp]: "m_edges (ensureNode g x) = m_edges g"
  by (simp add: ensureNode_def Let_def)

lemma ensureNode_bucket [simp]: "m_bucket (ensureNode g x) = m_bucket g"
  by (simp add: ensureNode_def Let_def)

lemma ensureNode_adj:
  "m_adj (ensureNode g x) =
     m_adj g @ replicate (nat (x + 1) - length (m_adj g)) []"
  by (auto simp: ensureNode_def Let_def resize_def nat_add_distrib)

lemma bucket_list_ensureNode [simp]: "bucket_list (ensureNode g x) k = bucket_list g k"
  by (simp add: bucket_list_def)

lemma bucket_inv_ensureNode: "bucket_inv g \<Longrightarrow> bucket_inv (ensureNode g x)"
  by (simp add: bucket_inv_def)

lemma addEdge_ok:
  assumes "0 \<le> u"
  shows "addEdge g u v w =
    Inr (int (length (m_edges g)),
         \<lparr>m_edges = m_edges g @ [Edge u v w True],
          m_adj = (m_adj (ensureNode (ensureNode g u) v))
                    [nat u := m_adj (ensureNode (ensureNode g u) v) ! nat u @ [int (length (m_edges g))]],
          m_bucket = (m_bucket g)((u, v, w) \<mapsto> bucket_list g (u, v, w) @ [int (length (m_edges g))])\<rparr>)"
proof -
  have "nat u < length (m_adj (ensureNode (ensureNode g u) v))"
    using assms by (simp add: ensureNode_adj)
  then show ?thesis
    using assms by (simp add: addEdge_def Let_def at_index_def bucket_list_def)
qed

lemma addEdge_neg: "u < 0 \<Longrightarrow> addEdge g u v w = Inl OutOfBounds"
  by (simp add: addEdge_def Let_def at_index_def ensureNode_def)

lemma bucket_inv_addEdge:
  assumes "bucket_inv g" "addEdge g u v w = Inr (eid, g')"
  shows "bucket_inv g'"
proof -
  have u: "0 \<le> u" using assms(2) addEdge_neg [of u g v w] by (cases "u < 0") auto
  show ?thesis
    using assms unfolding addEdge_ok [OF u] bucket_inv_def
    by (auto simp: bucket_list_def alive_ids_snoc edge_key_def)
qed

lemma removeEdge_empty:
  "bucket_list g (u, v, w) = [] \<Longrightarrow> removeEdge g u v w = Inr (False, g)"
  by (simp add: removeEdge_def bucket_list_def split: option.splits)

lemma removeEdge_nonempty:
  assumes "bucket_list g (u, v, w) = ids @ [int j]" "j < length (m_edges g)"
  shows "removeEdge g u v w =
    Inr (True, g\<lparr>m_bucket := (m_bucket g)((u, v, w) \<mapsto> ids),
                 m_edges := (m_edges g)[j := Edge (edge_u (m_edges g ! j)) (edge_v (m_edges g ! j))
                                               (edge_w (m_edges g ! j)) False]\<rparr>)"
  using assms
  by (auto simp: removeEdge_def bucket_list_def at_index_def Let_def split: option.splits)

lemma removeEdge_cases:
  assumes "bucket_inv g"
  shows "(alive_ids (m_edges g) (u, v, w) = [] \<and> removeEdge g u v w = Inr (False, g)) \<or>
         (\<exists>xs j. alive_ids (m_edges g) (u, v, w) = xs @ [j] \<and> j < length (m_edges g) \<and>
            removeEdge g u v w =
              Inr (True, g\<lparr>m_bucket := (m_bucket g)((u, v, w) \<mapsto> map int xs),
                 m_edges := (m_edges g)[j := Edge (edge_u (m_edges g ! j)) (edge_v (m_edges g ! j))
                                               (edge_w (m_edges g ! j)) False]\<rparr>))"
proof (cases "alive_ids (m_edges g) (u, v, w)" rule: rev_cases)
  case Nil
  then show ?thesis using assms removeEdge_empty [of g u v w] by (simp add: bucket_inv_def)
next
  case (snoc xs j)
  then have "j < length (m_edges g)" using alive_ids_mem [of j "m_edges g" "(u, v, w)"] by simp
  moreover have "bucket_list g (u, v, w) = map int xs @ [int j]"
    using assms snoc by (simp add: bucket_inv_def)
  ultimately show ?thesis using snoc removeEdge_nonempty [of g u v w "map int xs" j] by simp
qed

lemma bucket_inv_removeEdge:
  assumes "bucket_inv g"
  shows "\<exists>b g'. removeEdge g u v w = Inr (b, g') \<and> bucket_inv g'"
  using removeEdge_cases [OF assms, of u v w]
proof (elim disjE exE conjE)
  fix xs j
  assume a: "alive_ids (m_edges g) (u, v, w) = xs @ [j]" "j < length (m_edges g)"
    and r: "removeEdge g u v w = Inr (True, g\<lparr>m_bucket := (m_bucket g)((u, v, w) \<mapsto> map int xs),
                 m_edges := (m_edges g)[j := Edge (edge_u (m_edges g ! j)) (edge_v (m_edges g ! j))
                                               (edge_w (m_edges g ! j)) False]\<rparr>)"
  have "bucket_inv (g\<lparr>m_bucket := (m_bucket g)((u, v, w) \<mapsto> map int xs),
                 m_edges := (m_edges g)[j := Edge (edge_u (m_edges g ! j)) (edge_v (m_edges g ! j))
                                               (edge_w (m_edges g ! j)) False]\<rparr>)"
    using assms unfolding bucket_inv_def
    by (auto simp: alive_ids_kill [OF a(1)] bucket_list_def)
  with r show ?thesis by blast
qed (use assms in auto)


lemma bucket_inv_init: "DynamicDirectedGraph_init n = Inr g \<Longrightarrow> bucket_inv g"
  by (auto simp: DynamicDirectedGraph_init_def bucket_inv_def bucket_list_def alive_ids_def
      split: if_splits)

lemma G0_init: "DynamicDirectedGraph_init 1 = Inr G0"
  by (simp add: DynamicDirectedGraph_init_def G0_def numeral_2_eq_2)

lemma G1_add: "addEdge G0 0 1 5 = Inr (0, G1)"
  by (simp add: addEdge_ok G0_def G1_def ensureNode_def bucket_list_def)

lemma bucket_inv_G0: "bucket_inv G0"
  using bucket_inv_init [OF G0_init] .

lemma bucket_inv_G1: "bucket_inv G1"
  using bucket_inv_addEdge [OF bucket_inv_G0 G1_add] .

lemma bucket_inv_addEdges:
  "bucket_inv g \<Longrightarrow> addEdges g es = Inr g' \<Longrightarrow> bucket_inv g'"
proof (induction es arbitrary: g)
  case Nil
  then show ?case by simp
next
  case (Cons x es)
  obtain u v w where x: "x = (u, v, w)" by (cases x)
  from Cons.prems(2) obtain eid g1 where a: "addEdge g u v w = Inr (eid, g1)"
    and r: "addEdges g1 es = Inr g'"
    by (auto simp: x split: sum.splits)
  from Cons.IH [OF bucket_inv_addEdge [OF Cons.prems(1) a] r] show ?case .
qed

lemma G4_built: "addEdges G0 [(0, 1, 5), (0, 1, 5), (0, 1, 7), (0, 1, 5)] = Inr G4"
  by (simp add: addEdge_def ensureNode_def at_index_def Let_def G0_def G4_def fun_eq_iff)

lemma bucket_inv_G4: "bucket_inv G4"
  using bucket_inv_addEdges [OF bucket_inv_G0 G4_built] .

text \<open>
  C9. The per-triple buckets hold exactly the ids of the alive edges: \<open>bucket_inv\<close> says
  that the bucket of every triple is the list of the ids of the alive edge records with
  that triple, in insertion order. It is kept by \<open>ensureNode\<close>, by \<open>addEdge\<close> (which
  succeeds for every non-negative source node and returns the number of records as the id) and by \<open>removeEdge\<close> (which always
  succeeds on such a store). Every id in a bucket refers to an alive record with the
  bucket's triple, and \<open>removeEdge\<close> returns true exactly when an alive edge with the
  triple exists.
\<close>

theorem bucket_inv_preserved:
  assumes "bucket_inv g"
  shows "bucket_inv (ensureNode g x) \<and>
    (0 \<le> u \<and> int (length (m_edges g)) < 2 ^ 31 \<longrightarrow>
       (\<exists>g'. addEdge g u v w = Inr (int (length (m_edges g)), g') \<and> bucket_inv g')) \<and>
    (\<exists>b g'. removeEdge g u v w = Inr (b, g') \<and> bucket_inv g' \<and>
       (b \<longleftrightarrow> (\<exists>i<length (m_edges g). alive (m_edges g ! i) \<and> edge_key (m_edges g ! i) = (u, v, w)))) \<and>
    (\<forall>k. \<forall>eid\<in>set (bucket_list g k).
       0 \<le> eid \<and> nat eid < length (m_edges g) \<and> alive (m_edges g ! nat eid) \<and>
       edge_key (m_edges g ! nat eid) = k)"
proof (intro conjI)
  show "bucket_inv (ensureNode g x)"
    using assms by (rule bucket_inv_ensureNode)
  show "0 \<le> u \<and> int (length (m_edges g)) < 2 ^ 31 \<longrightarrow>
       (\<exists>g'. addEdge g u v w = Inr (int (length (m_edges g)), g') \<and> bucket_inv g')"
  proof
    assume "0 \<le> u \<and> int (length (m_edges g)) < 2 ^ 31"
    then have u: "0 \<le> u" by simp
    from addEdge_ok [OF u, of g v w] obtain g' where
      a: "addEdge g u v w = Inr (int (length (m_edges g)), g')"
      by blast
    with bucket_inv_addEdge [OF assms a]
    show "\<exists>g'. addEdge g u v w = Inr (int (length (m_edges g)), g') \<and> bucket_inv g'"
      by blast
  qed
  show "\<exists>b g'. removeEdge g u v w = Inr (b, g') \<and> bucket_inv g' \<and>
       (b \<longleftrightarrow> (\<exists>i<length (m_edges g). alive (m_edges g ! i) \<and> edge_key (m_edges g ! i) = (u, v, w)))"
  proof -
    obtain b g' where r: "removeEdge g u v w = Inr (b, g')" and i: "bucket_inv g'"
      using bucket_inv_removeEdge [OF assms, of u v w] by blast
    have "b \<longleftrightarrow> alive_ids (m_edges g) (u, v, w) \<noteq> []"
      using removeEdge_cases [OF assms, of u v w] r by auto
    also have "\<dots> \<longleftrightarrow> (\<exists>i. i \<in> set (alive_ids (m_edges g) (u, v, w)))"
      by (cases "alive_ids (m_edges g) (u, v, w)") auto
    finally have "b \<longleftrightarrow> (\<exists>i<length (m_edges g). alive (m_edges g ! i) \<and> edge_key (m_edges g ! i) = (u, v, w))"
      by (simp add: alive_ids_mem)
    with r i show ?thesis by blast
  qed
  show "\<forall>k. \<forall>eid\<in>set (bucket_list g k).
       0 \<le> eid \<and> nat eid < length (m_edges g) \<and> alive (m_edges g ! nat eid) \<and>
       edge_key (m_edges g ! nat eid) = k"
    using assms by (auto simp: bucket_inv_def alive_ids_mem)
qed

theorem bucket_inv_preserved_witness:
  "bucket_inv G1 \<and> bucket_inv (ensureNode G1 3) \<and>
    int (length (m_edges G1)) < 2 ^ 31 \<and>
    (\<exists>g'. addEdge G1 0 1 5 = Inr (1, g') \<and> bucket_inv g') \<and>
    (\<exists>g'. removeEdge G1 0 1 5 = Inr (True, g') \<and> bucket_inv g') \<and>
    (\<exists>g'. removeEdge G1 0 1 6 = Inr (False, g') \<and> bucket_inv g') \<and>
    bucket_list G1 (0, 1, 5) = [0] \<and> alive (m_edges G1 ! nat 0)"
proof -
  have d: "alive (m_edges G1 ! nat 0)" "int (length (m_edges G1)) < 2 ^ 31"
    "int (length (m_edges G1)) = 1"
    by (simp_all add: G1_def)
  have a: "(\<exists>i<length (m_edges G1). alive (m_edges G1 ! i) \<and> edge_key (m_edges G1 ! i) = (0, 1, 5)) = True"
    by (simp add: G1_def edge_key_def)
  have b: "(\<exists>i<length (m_edges G1). alive (m_edges G1 ! i) \<and> edge_key (m_edges G1 ! i) = (0, 1, 6)) = False"
    by (simp add: G1_def edge_key_def)
  have c: "bucket_list G1 (0, 1, 5) = [0]"
    by (simp add: G1_def bucket_list_def)
  show ?thesis
    using bucket_inv_preserved [OF bucket_inv_G1, of 3 0 1 5]
      bucket_inv_preserved [OF bucket_inv_G1, of 3 0 1 6] bucket_inv_G1
    unfolding a b c using d by auto
qed

text \<open>
  C6. On a store with at least one alive edge of the triple \<open>(u, v, w)\<close>, \<open>removeEdge\<close>
  returns true and clears \<open>alive\<close> on exactly one record: the alive record of that triple
  with the greatest id, which is the one inserted last. All other records, the
  adjacency sequences and the number of records stay as they were.
\<close>

theorem removeEdge_lifo:
  assumes "bucket_inv g"
    and "i < length (m_edges g)" "alive (m_edges g ! i)" "edge_key (m_edges g ! i) = (u, v, w)"
  shows "\<exists>j g'. removeEdge g u v w = Inr (True, g') \<and>
     j < length (m_edges g) \<and> alive (m_edges g ! j) \<and> edge_key (m_edges g ! j) = (u, v, w) \<and>
     (\<forall>i'<length (m_edges g). alive (m_edges g ! i') \<and> edge_key (m_edges g ! i') = (u, v, w) \<longrightarrow> i' \<le> j) \<and>
     m_edges g' = (m_edges g)[j := Edge u v w False] \<and>
     (\<forall>i'<length (m_edges g). i' \<noteq> j \<longrightarrow> m_edges g' ! i' = m_edges g ! i') \<and>
     length (m_edges g') = length (m_edges g) \<and>
     m_adj g' = m_adj g"
proof -
  have "i \<in> set (alive_ids (m_edges g) (u, v, w))"
    using assms by (simp add: alive_ids_mem)
  then have "alive_ids (m_edges g) (u, v, w) \<noteq> []" by auto
  with removeEdge_cases [OF assms(1), of u v w] obtain xs j where
    x: "alive_ids (m_edges g) (u, v, w) = xs @ [j]" and j: "j < length (m_edges g)" and
    r: "removeEdge g u v w =
          Inr (True, g\<lparr>m_bucket := (m_bucket g)((u, v, w) \<mapsto> map int xs),
             m_edges := (m_edges g)[j := Edge (edge_u (m_edges g ! j)) (edge_v (m_edges g ! j))
                                           (edge_w (m_edges g ! j)) False]\<rparr>)"
    by auto
  have jm: "alive (m_edges g ! j)" "edge_key (m_edges g ! j) = (u, v, w)"
    using alive_ids_mem [of j "m_edges g" "(u, v, w)"] x by auto
  have le: "i' \<le> j" if "i' < length (m_edges g)" "alive (m_edges g ! i')"
    "edge_key (m_edges g ! i') = (u, v, w)" for i'
  proof -
    have "i' \<in> set (xs @ [j])" using that x alive_ids_mem [of i' "m_edges g" "(u, v, w)"] by simp
    moreover have "sorted (xs @ [j])" using alive_ids_sorted [of "m_edges g" "(u, v, w)"] x by simp
    ultimately show ?thesis by (auto simp: sorted_append)
  qed
  have e: "Edge (edge_u (m_edges g ! j)) (edge_v (m_edges g ! j)) (edge_w (m_edges g ! j)) False
           = Edge u v w False"
    using jm(2) by (simp add: edge_key_def)
  let ?g' = "g\<lparr>m_bucket := (m_bucket g)((u, v, w) \<mapsto> map int xs),
               m_edges := (m_edges g)[j := Edge u v w False]\<rparr>"
  have "removeEdge g u v w = Inr (True, ?g')"
    using r unfolding e .
  moreover have "\<forall>i'<length (m_edges g). alive (m_edges g ! i') \<and> edge_key (m_edges g ! i') = (u, v, w) \<longrightarrow> i' \<le> j"
    using le by blast
  moreover have "m_edges ?g' = (m_edges g)[j := Edge u v w False]" "m_adj ?g' = m_adj g"
    "length (m_edges ?g') = length (m_edges g)"
    "\<forall>i'<length (m_edges g). i' \<noteq> j \<longrightarrow> m_edges ?g' ! i' = m_edges g ! i'"
    by simp_all
  ultimately show ?thesis
    using j jm by blast
qed

theorem removeEdge_lifo_witness:
  "bucket_inv G4 \<and> (0::nat) < length (m_edges G4) \<and> alive (m_edges G4 ! 0) \<and>
   edge_key (m_edges G4 ! 0) = (0, 1, 5) \<and>
   (\<exists>g'. removeEdge G4 0 1 5 = Inr (True, g') \<and>
      m_edges g' = [Edge 0 1 5 True, Edge 0 1 5 True, Edge 0 1 7 True, Edge 0 1 5 False] \<and>
      m_adj g' = m_adj G4 \<and>
      (\<exists>g''. removeEdge g' 0 1 5 = Inr (True, g'') \<and>
         m_edges g'' = [Edge 0 1 5 True, Edge 0 1 5 False, Edge 0 1 7 True, Edge 0 1 5 False] \<and>
         m_adj g'' = m_adj G4))"
proof -
  have es: "m_edges G4 = [Edge 0 1 5 True, Edge 0 1 5 True, Edge 0 1 7 True, Edge 0 1 5 True]"
    by (simp add: G4_def)
  have h: "(0::nat) < length (m_edges G4)" "alive (m_edges G4 ! 0)"
    "edge_key (m_edges G4 ! 0) = (0, 1, 5)"
    by (simp_all add: es edge_key_def)
  obtain j g' where r: "removeEdge G4 0 1 5 = Inr (True, g')"
    and j: "j < length (m_edges G4)"
    and m: "\<forall>i'<length (m_edges G4). alive (m_edges G4 ! i') \<and>
              edge_key (m_edges G4 ! i') = (0, 1, 5) \<longrightarrow> i' \<le> j"
    and e: "m_edges g' = (m_edges G4)[j := Edge 0 1 5 False]" and a: "m_adj g' = m_adj G4"
    using removeEdge_lifo [OF bucket_inv_G4 h] by blast
  from m [rule_format, of 3] have "3 \<le> j" by (simp add: es edge_key_def)
  with j have j3: "j = 3" by (simp add: es)
  have es': "m_edges g' = [Edge 0 1 5 True, Edge 0 1 5 True, Edge 0 1 7 True, Edge 0 1 5 False]"
    using e by (simp add: es j3)
  have inv': "bucket_inv g'"
    using bucket_inv_removeEdge [OF bucket_inv_G4, of 0 1 5] r by auto
  have h': "(0::nat) < length (m_edges g')" "alive (m_edges g' ! 0)"
    "edge_key (m_edges g' ! 0) = (0, 1, 5)"
    by (simp_all add: es' edge_key_def)
  obtain k g'' where r': "removeEdge g' 0 1 5 = Inr (True, g'')"
    and k: "k < length (m_edges g')" "alive (m_edges g' ! k)"
      "edge_key (m_edges g' ! k) = (0, 1, 5)"
    and m': "\<forall>i'<length (m_edges g'). alive (m_edges g' ! i') \<and>
              edge_key (m_edges g' ! i') = (0, 1, 5) \<longrightarrow> i' \<le> k"
    and e': "m_edges g'' = (m_edges g')[k := Edge 0 1 5 False]" and a': "m_adj g'' = m_adj g'"
    using removeEdge_lifo [OF inv' h'] by blast
  from m' [rule_format, of 1] have "1 \<le> k" by (simp add: es' edge_key_def)
  moreover have "k \<noteq> 2" "k \<noteq> 3" using k(2,3) by (auto simp: es' edge_key_def)
  ultimately have k1: "k = 1" using k(1) by (simp add: es')
  have es'': "m_edges g'' = [Edge 0 1 5 True, Edge 0 1 5 False, Edge 0 1 7 True, Edge 0 1 5 False]"
    using e' by (simp add: es' k1)
  from r es' a r' es'' a' h bucket_inv_G4 show ?thesis by auto
qed

text \<open>
  C5. Removing a triple that has no alive edge: \<open>removeEdge\<close> returns false and the
  store is the one it was; \<open>removeEdgeCmd\<close> returns the engine it was given, so the
  dirty flag is as before, and every later \<open>ask\<close> gives what it gave before the call.
\<close>

theorem removeEdge_absent:
  assumes "bucket_inv (m_g e)"
    and "\<not> (\<exists>i<length (m_edges (m_g e)). alive (m_edges (m_g e) ! i) \<and>
              edge_key (m_edges (m_g e) ! i) = (u, v, w))"
  shows "removeEdge (m_g e) u v w = Inr (False, m_g e) \<and>
         removeEdgeCmd e u v w = Inr e \<and>
         (\<exists>e'. removeEdgeCmd e u v w = Inr e' \<and> m_dirty e' = m_dirty e \<and>
            (\<forall>pqtop t. ask pqtop e' t = ask pqtop e t))"
proof -
  have "alive_ids (m_edges (m_g e)) (u, v, w) = []"
    using assms(2) by (auto simp: alive_ids_def filter_empty_conv)
  then have r: "removeEdge (m_g e) u v w = Inr (False, m_g e)"
    using removeEdge_cases [OF assms(1), of u v w] by auto
  then have "removeEdgeCmd e u v w = Inr e"
    by (simp add: removeEdgeCmd_def)
  with r show ?thesis by simp
qed

theorem removeEdge_absent_witness:
  "bucket_inv (m_g (LexiSSSP_init G1 0)) \<and>
   \<not> (\<exists>i<length (m_edges (m_g (LexiSSSP_init G1 0))). alive (m_edges (m_g (LexiSSSP_init G1 0)) ! i) \<and>
              edge_key (m_edges (m_g (LexiSSSP_init G1 0)) ! i) = (0, 1, 6)) \<and>
   removeEdge G1 0 1 6 = Inr (False, G1) \<and>
   removeEdgeCmd (LexiSSSP_init G1 0) 0 1 6 = Inr (LexiSSSP_init G1 0)"
proof -
  have g: "m_g (LexiSSSP_init G1 0) = G1" by (simp add: LexiSSSP_init_def)
  have n: "\<not> (\<exists>i<length (m_edges G1). alive (m_edges G1 ! i) \<and> edge_key (m_edges G1 ! i) = (0, 1, 6))"
    by (simp add: G1_def edge_key_def)
  show ?thesis
    using removeEdge_absent [of "LexiSSSP_init G1 0" 0 1 6] bucket_inv_G1 n unfolding g by simp
qed

section \<open>Properties of the search engine\<close>

subsection \<open>Well-formed stores\<close>

lemma ensureNode_adj_length:
  "length (m_adj (ensureNode g x)) = max (length (m_adj g)) (nat (x + 1))"
  by (simp add: ensureNode_adj)

lemma ensureNode_adj_nth:
  "y < length (m_adj g) \<Longrightarrow> m_adj (ensureNode g x) ! y = m_adj g ! y"
  by (simp add: ensureNode_adj nth_append)

lemma ensureNode_adj_new:
  "length (m_adj g) \<le> y \<Longrightarrow> y < length (m_adj (ensureNode g x)) \<Longrightarrow> m_adj (ensureNode g x) ! y = []"
  by (simp add: ensureNode_adj nth_append)

lemma adj_inv_ensureNode: "adj_inv g \<Longrightarrow> adj_inv (ensureNode g x)"
  unfolding adj_inv_def
proof (intro conjI allI impI ballI, goal_cases)
  case (1 y eid)
  then show ?case
    by (cases "y < length (m_adj g)") (auto simp: ensureNode_adj_nth ensureNode_adj_new)
next
  case (2 y eid)
  then show ?case
    by (cases "y < length (m_adj g)") (auto simp: ensureNode_adj_nth ensureNode_adj_new)
next
  case (3 y eid)
  then show ?case
    by (cases "y < length (m_adj g)") (auto simp: ensureNode_adj_nth ensureNode_adj_new)
next
  case (4 i)
  then show ?case by simp
next
  case (5 i)
  then show ?case by (auto simp: ensureNode_adj_length less_max_iff_disj)
next
  case (6 i)
  then show ?case by (simp add: ensureNode_adj_nth)
next
  case (7 i)
  then show ?case by simp
next
  case (8 i)
  then show ?case by (auto simp: ensureNode_adj_length less_max_iff_disj)
qed

lemma graph_ok_ensureNode:
  assumes "graph_ok g" "x < 2 ^ 31 - 1"
  shows "graph_ok (ensureNode g x)"
proof -
  have "int (length (m_adj (ensureNode g x))) < 2 ^ 31"
    using assms by (auto simp: graph_ok_def ensureNode_adj_length)
  then show ?thesis
    using assms by (simp add: graph_ok_def bucket_inv_ensureNode adj_inv_ensureNode weights_ok_def)
qed

lemma adj_inv_addEdge:
  assumes "adj_inv g" "0 \<le> u" "0 \<le> v" "addEdge g u v w = Inr (eid, g')"
  shows "adj_inv g'"
proof -
  let ?g1 = "ensureNode (ensureNode g u) v"
  let ?n = "length (m_edges g)"
  have g': "m_edges g' = m_edges g @ [Edge u v w True]"
    "m_adj g' = (m_adj ?g1)[nat u := m_adj ?g1 ! nat u @ [int ?n]]"
    using assms(4) unfolding addEdge_ok [OF assms(2)] by auto
  have a1: "adj_inv ?g1" using assms(1) by (intro adj_inv_ensureNode)
  have lu: "nat u < length (m_adj ?g1)" and lv: "nat v < length (m_adj ?g1)"
    using assms(2,3) by (auto simp: ensureNode_adj_length)
  have e1: "m_edges ?g1 = m_edges g" by simp
  show ?thesis
    unfolding adj_inv_def g'
  proof (intro conjI allI impI ballI, goal_cases)
    case (1 x j)
    then show ?case using a1 unfolding adj_inv_def e1
      by (cases "x = nat u") (auto simp: nth_list_update)
  next
    case (2 x j)
    then show ?case using a1 unfolding adj_inv_def e1
      by (cases "x = nat u") (auto simp: nth_list_update less_Suc_eq)
  next
    case (3 x j)
    then have x: "x < length (m_adj ?g1)" by simp
    show ?case
    proof (cases "j = int ?n")
      case True
      have "x = nat u"
      proof (rule ccontr)
        assume "x \<noteq> nat u"
        with 3 have "j \<in> set (m_adj ?g1 ! x)" by simp
        with a1 x have "nat j < ?n" unfolding adj_inv_def e1 by blast
        with True show False by simp
      qed
      with True assms(2) show ?thesis by simp
    next
      case False
      with 3 x have "j \<in> set (m_adj ?g1 ! x)"
        by (cases "x = nat u") (auto simp: nth_list_update)
      with a1 x have "0 \<le> j \<and> nat j < ?n \<and> edge_u (m_edges g ! nat j) = int x"
        unfolding adj_inv_def e1 by blast
      then show ?thesis by (simp add: nth_append)
    qed
  next
    case (4 i)
    then show ?case using a1 assms(2) unfolding adj_inv_def e1
      by (auto simp: nth_append less_Suc_eq)
  next
    case (5 i)
    then show ?case using a1 assms(2) lu unfolding adj_inv_def e1
      by (auto simp: nth_append less_Suc_eq)
  next
    case (6 i)
    show ?case
    proof (cases "i = ?n")
      case True
      then show ?thesis using lu by simp
    next
      case False
      with 6 have i: "i < ?n" by simp
      with a1 have "nat (edge_u (m_edges g ! i)) < length (m_adj ?g1)"
        "int i \<in> set (m_adj ?g1 ! nat (edge_u (m_edges g ! i)))"
        unfolding adj_inv_def e1 by blast+
      then show ?thesis using i
        by (cases "nat (edge_u (m_edges g ! i)) = nat u") (auto simp: nth_append nth_list_update)
    qed
  next
    case (7 i)
    then show ?case using a1 assms(3) unfolding adj_inv_def e1
      by (auto simp: nth_append less_Suc_eq)
  next
    case (8 i)
    then show ?case using a1 assms(3) lv unfolding adj_inv_def e1
      by (auto simp: nth_append less_Suc_eq)
  qed
qed

lemma graph_ok_addEdge:
  assumes "graph_ok g" "0 \<le> u" "u < 2 ^ 31 - 1" "0 \<le> v" "v < 2 ^ 31 - 1" "0 \<le> w" "w \<le> INT_MAX"
    and "int (length (m_edges g)) + 1 < 2 ^ 31"
  shows "\<exists>g'. addEdge g u v w = Inr (int (length (m_edges g)), g') \<and> graph_ok g' \<and>
           m_edges g' = m_edges g @ [Edge u v w True] \<and>
           length (m_adj g') = max (length (m_adj g)) (max (nat (u + 1)) (nat (v + 1)))"
proof -
  obtain g' where a: "addEdge g u v w = Inr (int (length (m_edges g)), g')"
    using addEdge_ok [OF assms(2), of g v w] by blast
  have g': "m_edges g' = m_edges g @ [Edge u v w True]"
    "length (m_adj g') = max (length (m_adj g)) (max (nat (u + 1)) (nat (v + 1)))"
    using a unfolding addEdge_ok [OF assms(2)] by (auto simp: ensureNode_adj_length max.assoc)
  have "weights_ok g'"
    using assms(1,6,7) unfolding weights_ok_def graph_ok_def g'
    by (auto simp: nth_append less_Suc_eq)
  moreover have "int (length (m_adj g')) < 2 ^ 31" "int (length (m_edges g')) < 2 ^ 31"
    using assms(1,3,5,8) unfolding g' graph_ok_def by auto
  ultimately have "graph_ok g'"
    using assms(1) bucket_inv_addEdge [OF _ a] adj_inv_addEdge [OF _ assms(2,4) a]
    by (simp add: graph_ok_def)
  with a g' show ?thesis by blast
qed

lemma graph_ok_removeEdge:
  assumes "graph_ok g"
  shows "\<exists>b g'. removeEdge g u v w = Inr (b, g') \<and> graph_ok g' \<and> m_adj g' = m_adj g \<and>
           length (m_edges g') = length (m_edges g) \<and>
           (\<not> b \<longrightarrow> g' = g) \<and>
           (\<forall>i<length (m_edges g). edge_u (m_edges g' ! i) = edge_u (m_edges g ! i) \<and>
              edge_v (m_edges g' ! i) = edge_v (m_edges g ! i) \<and>
              edge_w (m_edges g' ! i) = edge_w (m_edges g ! i) \<and>
              (alive (m_edges g' ! i) \<longrightarrow> alive (m_edges g ! i)))"
proof -
  have b: "bucket_inv g" using assms by (simp add: graph_ok_def)
  obtain r g' where r: "removeEdge g u v w = Inr (r, g')" and i: "bucket_inv g'"
    using bucket_inv_removeEdge [OF b, of u v w] by blast
  have s: "m_adj g' = m_adj g \<and> length (m_edges g') = length (m_edges g) \<and> (\<not> r \<longrightarrow> g' = g) \<and>
           (\<forall>i<length (m_edges g). edge_u (m_edges g' ! i) = edge_u (m_edges g ! i) \<and>
              edge_v (m_edges g' ! i) = edge_v (m_edges g ! i) \<and>
              edge_w (m_edges g' ! i) = edge_w (m_edges g ! i) \<and>
              (alive (m_edges g' ! i) \<longrightarrow> alive (m_edges g ! i)))"
    using removeEdge_cases [OF b, of u v w] r by (auto simp: nth_list_update split: if_splits)
  then have "adj_inv g'" "weights_ok g'" "int (length (m_adj g')) < 2 ^ 31"
    "int (length (m_edges g')) < 2 ^ 31"
    using assms unfolding graph_ok_def adj_inv_def weights_ok_def by auto
  with i have "graph_ok g'" by (simp add: graph_ok_def)
  with r s show ?thesis by blast
qed

lemma graph_ok_init:
  assumes "0 \<le> n + 1" "n < 2 ^ 31 - 1"
  shows "\<exists>g. DynamicDirectedGraph_init n = Inr g \<and> graph_ok g"
proof -
  obtain g where g: "DynamicDirectedGraph_init n = Inr g"
    using assms by (auto simp: DynamicDirectedGraph_init_def)
  then have "m_edges g = []" "m_adj g = replicate (nat (n + 1)) []"
    using assms by (auto simp: DynamicDirectedGraph_init_def split: if_splits)
  then have "graph_ok g"
    using bucket_inv_init [OF g] assms by (auto simp: graph_ok_def adj_inv_def weights_ok_def)
  with g show ?thesis by blast
qed

subsection \<open>Relaxing the out-edges of a popped entry\<close>

lemma is_path_snoc:
  "is_path es a (p @ [i]) b \<longleftrightarrow>
     i < length es \<and> alive (es ! i) \<and> edge_v (es ! i) = b \<and> is_path es a p (edge_u (es ! i))"
  by (induction p arbitrary: a) auto

lemma path_sum_Nil [simp]: "path_sum es [] = 0"
  by (simp add: path_sum_def)

lemma path_max_Nil [simp]: "path_max es [] = 0"
  by (simp add: path_max_def)

lemma path_sum_snoc [simp]: "path_sum es (p @ [i]) = path_sum es p + edge_w (es ! i)"
  by (simp add: path_sum_def)

lemma path_max_snoc [simp]: "path_max es (p @ [i]) = max (path_max es p) (edge_w (es ! i))"
  by (simp add: path_max_def)

lemma card_bound:
  assumes "k \<le> n" "int n \<le> 2 ^ 31"
  shows "int k * INT_MAX + INT_MAX < LexiSSSP_INF"
proof -
  have "int k * INT_MAX \<le> 2 ^ 31 * INT_MAX"
    using assms by (intro mult_right_mono) (auto simp: INT_MAX_def)
  then show ?thesis by (simp add: INT_MAX_def LexiSSSP_INF_def)
qed

lemma settled_set_card: "card (settled_set dist best pq) \<le> length dist"
proof -
  have "settled_set dist best pq \<subseteq> {..<length dist}"
    by (auto simp: settled_set_def)
  then have "card (settled_set dist best pq) \<le> card {..<length dist}"
    by (intro card_mono) auto
  then show ?thesis by simp
qed

lemma relax_dead:
  assumes "0 \<le> eid" "nat eid < length (m_edges g)" "\<not> alive (m_edges g ! nat eid)"
  shows "relax g cur eid st = Inr st"
  using assms by (simp add: relax_def edgeById_def at_index_def split: prod.splits)

lemma relax_alive:
  assumes "0 \<le> eid" "nat eid < length (m_edges g)" "alive (m_edges g ! nat eid)"
    and "0 \<le> edge_v (m_edges g ! nat eid)" "nat (edge_v (m_edges g ! nat eid)) < length dist"
    and "length best = length dist"
    and "- (2 ^ 63) \<le> pq_dist cur + edge_w (m_edges g ! nat eid)"
    and "pq_dist cur + edge_w (m_edges g ! nat eid) < 2 ^ 63"
  shows "relax g cur eid (dist, best, pq) =
     Inr (if (pq_dist cur + edge_w (m_edges g ! nat eid),
              max (pq_bottleneck cur) (edge_w (m_edges g ! nat eid)))
             < (dist ! nat (edge_v (m_edges g ! nat eid)), best ! nat (edge_v (m_edges g ! nat eid)))
          then (dist[nat (edge_v (m_edges g ! nat eid)) := pq_dist cur + edge_w (m_edges g ! nat eid)],
                best[nat (edge_v (m_edges g ! nat eid)) :=
                       max (pq_bottleneck cur) (edge_w (m_edges g ! nat eid))],
                pq @ [PQItem (pq_dist cur + edge_w (m_edges g ! nat eid))
                        (max (pq_bottleneck cur) (edge_w (m_edges g ! nat eid)))
                        (edge_v (m_edges g ! nat eid))])
          else (dist, best, pq))"
  using assms by (auto simp: relax_def edgeById_def at_index_def Let_def)

lemma accept_step:
  fixes nd nb :: int
  assumes W: "wf_labels g S dist best pq" and M: "mono_inv dist best pq"
    and C: "closed_inv es proc dist best pq" and D: "sound_inv es S dist best"
    and K: "cur_inv cur dist best pq"
    and e: "i < length es" "alive (es ! i)" "edge_u (es ! i) = pq_v cur" "edge_v (es ! i) = int v"
      "v < length dist" "0 \<le> edge_w (es ! i)" "edge_w (es ! i) \<le> INT_MAX"
    and nd: "nd = pq_dist cur + edge_w (es ! i)" and nb: "nb = max (pq_bottleneck cur) (edge_w (es ! i))"
    and acc: "(nd, nb) < (dist ! v, best ! v)"
  shows "wf_labels g S (dist[v := nd]) (best[v := nb]) (pq @ [PQItem nd nb (int v)]) \<and>
         mono_inv (dist[v := nd]) (best[v := nb]) (pq @ [PQItem nd nb (int v)]) \<and>
         closed_inv es (proc(nat (pq_v cur) := proc (nat (pq_v cur)) @ [int i]))
           (dist[v := nd]) (best[v := nb]) (pq @ [PQItem nd nb (int v)]) \<and>
         sound_inv es S (dist[v := nd]) (best[v := nb]) \<and>
         cur_inv cur (dist[v := nd]) (best[v := nb]) (pq @ [PQItem nd nb (int v)]) \<and>
         settled_set (dist[v := nd]) (best[v := nb]) (pq @ [PQItem nd nb (int v)])
           = settled_set dist best pq"
proof -
  let ?u = "nat (pq_v cur)"
  let ?w = "edge_w (es ! i)"
  let ?dist = "dist[v := nd]" and ?best = "best[v := nb]" and ?pq = "pq @ [PQItem nd nb (int v)]"
  have len: "length best = length dist" using W by (simp add: wf_labels_def)
  have u: "0 \<le> pq_v cur" "?u < length dist" "pq_dist cur = dist ! ?u" "pq_bottleneck cur = best ! ?u"
    "settled dist best pq ?u"
    using K by (simp_all add: cur_inv_def pq_key_def)
  have nonneg: "0 \<le> dist ! x \<and> 0 \<le> best ! x" if "x < length dist" for x
    using W that by (simp add: wf_labels_def)
  have kle: "pq_key cur \<le> (nd, nb)"
    using e(6) by (simp add: pq_key_def nd nb)
  have nd0: "0 \<le> nd" "0 \<le> nb"
    using nonneg [OF u(2)] e(6) u(3,4) by (simp_all add: nd nb)
  have below: "(dist ! x, best ! x) \<le> pq_key cur" if "x < length dist" "settled dist best pq x" for x
    using K that unfolding cur_inv_def by blast
  have nsv: "\<not> settled dist best pq v"
  proof
    assume "settled dist best pq v"
    from below [OF e(5) this] kle have "(dist ! v, best ! v) \<le> (nd, nb)" by (rule order_trans)
    with acc show False by (meson leD)
  qed
  have card: "nd \<le> int (card (settled_set dist best pq)) * INT_MAX"
    using K e(7) by (simp add: cur_inv_def nd)
  have ndinf: "nd < LexiSSSP_INF"
  proof -
    have "int (length dist) \<le> 2 ^ 31" using W by (simp add: wf_labels_def)
    from card_bound [OF settled_set_card this, of best pq] card show ?thesis
      by (simp add: INT_MAX_def)
  qed
  have st: "settled ?dist ?best ?pq x = settled dist best pq x" if "x < length dist" for x
  proof (cases "x = v")
    case True
    then show ?thesis using nsv e(5) len by (simp add: settled_def)
  next
    case False
    then show ?thesis by (auto simp: settled_def)
  qed
  have ss: "settled_set ?dist ?best ?pq = settled_set dist best pq"
    using st by (auto simp: settled_set_def)
  have vu: "v \<noteq> ?u" using nsv u(5) by auto
  have items: "(dist ! v, best ! v) \<le> pq_key j" if "j \<in> set pq" "pq_v j = int v" for j
    using W that by (auto simp: wf_labels_def)
  have fresh: "PQItem nd nb (int v) \<notin> set pq"
  proof
    assume "PQItem nd nb (int v) \<in> set pq"
    from items [OF this] have "(dist ! v, best ! v) \<le> (nd, nb)" by (simp add: pq_key_def)
    with acc show False by (meson leD)
  qed
  have vS: "v \<noteq> nat S"
  proof
    assume "v = nat S"
    then have "dist ! v = 0" "best ! v = 0" using W by (simp_all add: wf_labels_def)
    with acc nd0 show False by auto
  qed
  have wf: "wf_labels g S ?dist ?best ?pq"
    unfolding wf_labels_def ss
  proof (intro conjI allI impI ballI, goal_cases)
    case (8 x) then show ?case using nonneg [of x] nd0 by (cases "x = v") simp_all
  next
    case (9 x) then show ?case using nonneg [of x] nd0 len by (cases "x = v") simp_all
  next
    case (10 x) then show ?case using W ndinf len by (cases "x = v") (simp_all add: wf_labels_def)
  next
    case (11 x) then show ?case using W card by (cases "x = v") (simp_all add: wf_labels_def)
  next
    case (12 j) then show ?case using W e(5) by (auto simp: wf_labels_def)
  next
    case (13 j) then show ?case using W e(5) by (auto simp: wf_labels_def)
  next
    case (14 j) then show ?case using W ndinf by (auto simp: wf_labels_def)
  next
    case (15 j)
    show ?case
    proof (cases "j \<in> set pq")
      case True
      then have j: "nat (pq_v j) < length dist" "(dist ! nat (pq_v j), best ! nat (pq_v j)) \<le> pq_key j"
        "0 \<le> pq_v j"
        using W by (auto simp: wf_labels_def)
      show ?thesis
      proof (cases "nat (pq_v j) = v")
        case True
        with j have "(nd, nb) \<le> pq_key j" using acc by (metis less_le_trans less_imp_le)
        with True e(5) len show ?thesis by simp
      next
        case False
        with j show ?thesis by simp
      qed
    next
      case False
      with 15 have "j = PQItem nd nb (int v)" by simp
      then show ?thesis using e(5) len by (simp add: pq_key_def)
    qed
  next
    case 16 then show ?case using W fresh by (simp add: wf_labels_def)
  qed (use W vS in \<open>simp_all add: wf_labels_def\<close>)
  have mono: "mono_inv ?dist ?best ?pq"
    unfolding mono_inv_def
  proof (intro allI impI ballI)
    fix x j assume x: "x < length ?dist" "settled ?dist ?best ?pq x" and j: "j \<in> set ?pq"
    from x have x': "x < length dist" "settled dist best pq x" using st by simp_all
    with nsv have xv: "x \<noteq> v" by auto
    have "(dist ! x, best ! x) \<le> pq_key j"
    proof (cases "j \<in> set pq")
      case True
      then show ?thesis using M x' by (simp add: mono_inv_def)
    next
      case False
      with j have "pq_key j = (nd, nb)" by (simp add: pq_key_def)
      with below [OF x'] kle show ?thesis by (metis order_trans)
    qed
    with xv show "(?dist ! x, ?best ! x) \<le> pq_key j" by simp
  qed
  have closed: "closed_inv es (proc(?u := proc ?u @ [int i])) ?dist ?best ?pq"
    unfolding closed_inv_def
  proof (intro allI impI ballI)
    fix x eid
    assume x: "x < length ?dist" "settled ?dist ?best ?pq x"
      and eid: "eid \<in> set ((proc(?u := proc ?u @ [int i])) x)" and al: "alive (es ! nat eid)"
    from x have x': "x < length dist" "settled dist best pq x" using st by simp_all
    with nsv have xv: "x \<noteq> v" by auto
    let ?t = "nat (edge_v (es ! nat eid))"
    let ?c = "(dist ! x + edge_w (es ! nat eid), max (best ! x) (edge_w (es ! nat eid)))"
    have "(?dist ! ?t, ?best ! ?t) \<le> ?c"
    proof (cases "eid = int i \<and> x = ?u")
      case True
      then have "?t = v" "?c = (nd, nb)" using e(4) u(3,4) by (simp_all add: nd nb)
      then show ?thesis using e(5) len by simp
    next
      case False
      with eid have "eid \<in> set (proc x)" by (auto split: if_splits)
      with C x' al have old: "(dist ! ?t, best ! ?t) \<le> ?c" unfolding closed_inv_def by blast
      show ?thesis
      proof (cases "?t = v")
        case True
        have "(nd, nb) \<le> ?c" using acc old unfolding True by (metis less_le_trans less_imp_le)
        then show ?thesis using True e(5) len by simp
      next
        case False
        then show ?thesis using old by simp
      qed
    qed
    with xv show "(?dist ! ?t, ?best ! ?t)
       \<le> (?dist ! x + edge_w (es ! nat eid), max (?best ! x) (edge_w (es ! nat eid)))" by simp
  qed
  have sound: "sound_inv es S ?dist ?best"
    unfolding sound_inv_def
  proof (intro allI impI)
    fix x assume x: "x < length ?dist" "?dist ! x \<noteq> LexiSSSP_INF"
    show "\<exists>p. is_path es S p (int x) \<and> path_sum es p = ?dist ! x \<and> path_max es p = ?best ! x"
    proof (cases "x = v")
      case True
      from u(5) have "dist ! ?u \<noteq> LexiSSSP_INF" by (simp add: settled_def)
      with D u(2) obtain p where p: "is_path es S p (int ?u)" "path_sum es p = dist ! ?u"
        "path_max es p = best ! ?u" unfolding sound_inv_def by blast
      have "is_path es S (p @ [i]) (int v)"
        using p(1) e u(1) by (simp add: is_path_snoc)
      moreover have "path_sum es (p @ [i]) = nd" "path_max es (p @ [i]) = nb"
        using p u(3,4) by (simp_all add: nd nb)
      ultimately show ?thesis using True e(5) len by (intro exI [of _ "p @ [i]"]) simp
    next
      case False
      with x D show ?thesis unfolding sound_inv_def by simp
    qed
  qed
  have cur: "cur_inv cur ?dist ?best ?pq"
    unfolding cur_inv_def ss
  proof (intro conjI allI impI, goal_cases)
    case 3 then show ?case using vu u by (simp add: pq_key_def)
  next
    case 4 then show ?case using st [OF u(2)] u(5) by simp
  next
    case (5 x)
    then have x': "x < length dist" "settled dist best pq x" using st by simp_all
    with nsv have "x \<noteq> v" by auto
    with below [OF x'] show ?case by simp
  qed (use K in \<open>simp_all add: cur_inv_def\<close>)
  from wf mono closed sound cur ss show ?thesis by blast
qed

lemma reject_step:
  assumes C: "closed_inv es proc dist best pq" and K: "cur_inv cur dist best pq"
    and e: "alive (es ! i) \<Longrightarrow>
       (dist ! nat (edge_v (es ! i)), best ! nat (edge_v (es ! i)))
         \<le> (pq_dist cur + edge_w (es ! i), max (pq_bottleneck cur) (edge_w (es ! i)))"
  shows "closed_inv es (proc(nat (pq_v cur) := proc (nat (pq_v cur)) @ [int i])) dist best pq"
  unfolding closed_inv_def
proof (intro allI impI ballI)
  fix x eid
  assume x: "x < length dist" "settled dist best pq x"
    and eid: "eid \<in> set ((proc(nat (pq_v cur) := proc (nat (pq_v cur)) @ [int i])) x)"
    and al: "alive (es ! nat eid)"
  show "(dist ! nat (edge_v (es ! nat eid)), best ! nat (edge_v (es ! nat eid)))
       \<le> (dist ! x + edge_w (es ! nat eid), max (best ! x) (edge_w (es ! nat eid)))"
  proof (cases "eid = int i \<and> x = nat (pq_v cur)")
    case True
    moreover have "pq_dist cur = dist ! nat (pq_v cur)" "pq_bottleneck cur = best ! nat (pq_v cur)"
      using K by (simp_all add: cur_inv_def pq_key_def)
    ultimately show ?thesis using e al by simp
  next
    case False
    with eid have "eid \<in> set (proc x)" by (auto split: if_splits)
    with C x al show ?thesis unfolding closed_inv_def by blast
  qed
qed

lemma relax_step:
  assumes G: "adj_inv g" "weights_ok g"
    and I: "loop_inv g S proc dist best pq" and K: "cur_inv cur dist best pq"
    and E: "eid \<in> set (outEdges g (pq_v cur))"
  shows "\<exists>dist' best' pq'. relax g cur eid (dist, best, pq) = Inr (dist', best', pq') \<and>
     loop_inv g S (proc(nat (pq_v cur) := proc (nat (pq_v cur)) @ [eid])) dist' best' pq' \<and>
     cur_inv cur dist' best' pq' \<and>
     settled_set dist' best' pq' = settled_set dist best pq \<and> length dist' = length dist"
proof -
  let ?es = "m_edges g" and ?u = "nat (pq_v cur)"
  let ?e = "?es ! nat eid"
  have W: "wf_labels g S dist best pq" using I by (simp add: loop_inv_def)
  have u: "0 \<le> pq_v cur" "?u < length (m_adj g)" "eid \<in> set (m_adj g ! ?u)"
    using E by (auto simp: outEdges_def split: if_splits)
  have "0 \<le> eid \<and> nat eid < length ?es \<and> edge_u ?e = int ?u"
    using G(1) u(2,3) unfolding adj_inv_def by blast
  with u(1) have eid: "0 \<le> eid" "nat eid < length ?es" "edge_u ?e = pq_v cur"
    by simp_all
  have adjlen: "length (m_adj g) \<le> length dist" using W by (simp add: wf_labels_def)
  have "0 \<le> edge_v ?e \<and> nat (edge_v ?e) < length (m_adj g)"
    using G(1) eid(2) unfolding adj_inv_def by blast
  with adjlen have v: "0 \<le> edge_v ?e" "nat (edge_v ?e) < length dist"
    by simp_all
  have "0 \<le> edge_w ?e \<and> edge_w ?e \<le> INT_MAX"
    using G(2) eid(2) unfolding weights_ok_def by blast
  then have w: "0 \<le> edge_w ?e" "edge_w ?e \<le> INT_MAX"
    by simp_all
  have len: "length best = length dist" using W by (simp add: wf_labels_def)
  have ie: "int (nat eid) = eid" using eid(1) by simp
  show ?thesis
  proof (cases "alive ?e")
    case False
    then have "relax g cur eid (dist, best, pq) = Inr (dist, best, pq)"
      using eid by (simp add: relax_dead)
    moreover have "closed_inv ?es (proc(?u := proc ?u @ [eid])) dist best pq"
      using reject_step [of ?es proc dist best pq cur "nat eid"] I K False eid(1)
      by (simp add: loop_inv_def)
    ultimately show ?thesis using I K by (simp add: loop_inv_def)
  next
    case True
    let ?nd = "pq_dist cur + edge_w ?e" and ?nb = "max (pq_bottleneck cur) (edge_w ?e)"
    let ?v = "nat (edge_v ?e)"
    have d: "pq_dist cur = dist ! ?u" "?u < length dist"
      using K by (simp_all add: cur_inv_def pq_key_def)
    have "0 \<le> pq_dist cur" using W d by (simp add: wf_labels_def)
    moreover have "pq_dist cur \<le> int (card (settled_set dist best pq)) * INT_MAX"
      using K by (simp add: cur_inv_def INT_MAX_def)
    moreover have "int (card (settled_set dist best pq)) * INT_MAX + INT_MAX < LexiSSSP_INF"
      using W by (intro card_bound [OF settled_set_card]) (simp add: wf_labels_def)
    ultimately have ov: "- (2 ^ 63) \<le> ?nd" "?nd < 2 ^ 63"
      using w by (simp_all add: LexiSSSP_INF_def INT_MAX_def)
    note r = relax_alive [OF eid(1,2) True v len ov, of pq]
    show ?thesis
    proof (cases "(?nd, ?nb) < (dist ! ?v, best ! ?v)")
      case acc: True
      have ev: "edge_v ?e = int ?v" using v by simp
      have I': "mono_inv dist best pq" "closed_inv ?es proc dist best pq" "sound_inv ?es S dist best"
        using I by (simp_all add: loop_inv_def)
      note A = accept_step [OF W I' K eid(2) True eid(3) ev v(2) w refl refl acc]
      have iv: "int ?v = edge_v ?e" using v by simp
      have r': "relax g cur eid (dist, best, pq) =
          Inr (dist[?v := ?nd], best[?v := ?nb], pq @ [PQItem ?nd ?nb (edge_v ?e)])"
        unfolding r by (simp only: acc if_True)
      show ?thesis
        unfolding r' using A eid(1) v(1) by (simp add: loop_inv_def)
    next
      case False
      then have "(dist ! ?v, best ! ?v) \<le> (?nd, ?nb)" by (meson not_le)
      then have "closed_inv ?es (proc(?u := proc ?u @ [eid])) dist best pq"
        using reject_step [of ?es proc dist best pq cur "nat eid"] I K eid(1)
        by (simp add: loop_inv_def)
      moreover have "relax g cur eid (dist, best, pq) = Inr (dist, best, pq)"
        unfolding r by (simp only: False if_False)
      ultimately show ?thesis using I K by (simp add: loop_inv_def)
    qed
  qed
qed

lemma relax_edges_inv:
  assumes G: "adj_inv g" "weights_ok g"
    and I: "loop_inv g S proc dist best pq" and K: "cur_inv cur dist best pq"
    and E: "set eids \<subseteq> set (outEdges g (pq_v cur))"
  shows "\<exists>dist' best' pq'. relax_edges g cur eids (dist, best, pq) = Inr (dist', best', pq') \<and>
     loop_inv g S (proc(nat (pq_v cur) := proc (nat (pq_v cur)) @ eids)) dist' best' pq' \<and>
     cur_inv cur dist' best' pq' \<and>
     settled_set dist' best' pq' = settled_set dist best pq \<and> length dist' = length dist"
  using I K E
proof (induction eids arbitrary: proc dist best pq)
  case Nil
  then show ?case by simp
next
  case (Cons eid eids)
  let ?u = "nat (pq_v cur)"
  from Cons.prems have "eid \<in> set (outEdges g (pq_v cur))" by simp
  from relax_step [OF G Cons.prems(1,2) this] obtain dist1 best1 pq1 where
    r: "relax g cur eid (dist, best, pq) = Inr (dist1, best1, pq1)"
    and i: "loop_inv g S (proc(?u := proc ?u @ [eid])) dist1 best1 pq1"
    and k: "cur_inv cur dist1 best1 pq1"
    and s: "settled_set dist1 best1 pq1 = settled_set dist best pq" "length dist1 = length dist"
    by blast
  from Cons.prems have "set eids \<subseteq> set (outEdges g (pq_v cur))" by simp
  from Cons.IH [OF i k this] obtain dist' best' pq' where
    t: "relax_edges g cur eids (dist1, best1, pq1) = Inr (dist', best', pq')"
    "loop_inv g S ((proc(?u := proc ?u @ [eid]))(?u := (proc(?u := proc ?u @ [eid])) ?u @ eids)) dist' best' pq'"
    "cur_inv cur dist' best' pq'"
    "settled_set dist' best' pq' = settled_set dist1 best1 pq1" "length dist' = length dist1"
    by blast
  have "(proc(?u := proc ?u @ [eid]))(?u := (proc(?u := proc ?u @ [eid])) ?u @ eids)
      = proc(?u := proc ?u @ eid # eids)"
    by simp
  with t have "loop_inv g S (proc(?u := proc ?u @ eid # eids)) dist' best' pq'"
    by simp
  with t r s show ?case by (simp add: fun_upd_def)
qed

subsection \<open>Popping an entry\<close>

lemma pq_less_key: "pq_less a b \<longleftrightarrow> pq_key b < pq_key a"
  by (auto simp: pq_less_def pq_key_def)

lemma valid_topD:
  assumes "valid_top pqtop" "pq \<noteq> []"
  shows "pqtop pq \<in> set pq" and "j \<in> set pq \<Longrightarrow> pq_key (pqtop pq) \<le> pq_key j"
proof -
  show "pqtop pq \<in> set pq" using assms by (simp add: valid_top_def)
  assume "j \<in> set pq"
  with assms have "\<not> pq_less (pqtop pq) j" unfolding valid_top_def by blast
  then show "pq_key (pqtop pq) \<le> pq_key j" by (simp only: pq_less_key not_less)
qed

lemma stale_eq:
  assumes "0 \<le> pq_v cur" "nat (pq_v cur) < length dist" "length best = length dist"
  shows "stale cur dist best
         = Inr (pq_key cur \<noteq> (dist ! nat (pq_v cur), best ! nat (pq_v cur)))"
  using assms by (simp add: stale_def at_index_def pq_key_def)

lemma finite_settled_set [simp]: "finite (settled_set dist best pq)"
proof -
  have "settled_set dist best pq \<subseteq> {..<length dist}"
    by (auto simp: settled_set_def)
  then show ?thesis by (rule finite_subset) simp
qed

lemma PQItem_key_eq: "i = PQItem d b x \<longleftrightarrow> pq_key i = (d, b) \<and> pq_v i = x"
  by (cases i) (auto simp: pq_key_def)

lemma pop_stale:
  assumes I: "loop_inv g S proc dist best pq" and c: "cur \<in> set pq"
    and s: "pq_key cur \<noteq> (dist ! nat (pq_v cur), best ! nat (pq_v cur))"
  shows "loop_inv g S proc dist best (remove1 cur pq) \<and>
         settled_set dist best (remove1 cur pq) = settled_set dist best pq"
proof -
  let ?pq = "remove1 cur pq"
  have W: "wf_labels g S dist best pq" using I by (simp add: loop_inv_def)
  then have dq: "distinct pq" by (simp add: wf_labels_def)
  have cv: "0 \<le> pq_v cur" using W c by (simp add: wf_labels_def)
  have sub: "set ?pq \<subseteq> set pq" by (rule set_remove1_subset)
  have st: "settled dist best ?pq x = settled dist best pq x" for x
  proof -
    have "PQItem (dist ! x) (best ! x) (int x) \<noteq> cur"
      using s cv by (auto simp: pq_key_def)
    then show ?thesis using dq by (auto simp: settled_def)
  qed
  then have ss: "settled_set dist best ?pq = settled_set dist best pq"
    by (simp add: settled_set_def)
  have "wf_labels g S dist best ?pq"
    using W sub dq unfolding wf_labels_def ss by (simp add: subset_iff)
  moreover have "mono_inv dist best ?pq"
    using I sub unfolding loop_inv_def mono_inv_def st by (simp add: subset_iff)
  moreover have "closed_inv (m_edges g) proc dist best ?pq"
    using I unfolding loop_inv_def closed_inv_def st by simp
  ultimately show ?thesis using I ss by (simp add: loop_inv_def)
qed

lemma pop_fresh:
  assumes I: "loop_inv g S proc dist best pq" and c: "cur \<in> set pq"
    and m: "\<forall>j\<in>set pq. pq_key cur \<le> pq_key j"
    and s: "pq_key cur = (dist ! nat (pq_v cur), best ! nat (pq_v cur))"
  shows "loop_inv g S (proc(nat (pq_v cur) := [])) dist best (remove1 cur pq) \<and>
         cur_inv cur dist best (remove1 cur pq) \<and>
         settled_set dist best (remove1 cur pq) = insert (nat (pq_v cur)) (settled_set dist best pq) \<and>
         nat (pq_v cur) \<notin> settled_set dist best pq"
proof -
  let ?pq = "remove1 cur pq" and ?u = "nat (pq_v cur)"
  have W: "wf_labels g S dist best pq" using I by (simp add: loop_inv_def)
  then have dq: "distinct pq" by (simp add: wf_labels_def)
  have cv: "0 \<le> pq_v cur" "?u < length dist" "pq_dist cur < LexiSSSP_INF"
    using W c by (simp_all add: wf_labels_def)
  have cur: "cur = PQItem (dist ! ?u) (best ! ?u) (int ?u)"
    using s cv by (simp add: PQItem_key_eq)
  have fin: "dist ! ?u \<noteq> LexiSSSP_INF"
    using s cv(3) by (simp add: pq_key_def)
  have sub: "set ?pq \<subseteq> set pq" by (rule set_remove1_subset)
  have nu: "\<not> settled dist best pq ?u"
    using c cur by (simp add: settled_def)
  have su: "settled dist best ?pq ?u"
    using dq cur fin by (simp add: settled_def)
  have st: "settled dist best ?pq x = settled dist best pq x" if "x \<noteq> ?u" for x
  proof -
    have "PQItem (dist ! x) (best ! x) (int x) \<noteq> cur"
      using that cur by (metis PQItem.inject nat_int)
    then show ?thesis using dq by (auto simp: settled_def)
  qed
  have "x \<in> settled_set dist best ?pq \<longleftrightarrow> x \<in> insert ?u (settled_set dist best pq)" for x
    using st [of x] su cv(2) by (cases "x = ?u") (simp_all add: settled_set_def)
  then have ss: "settled_set dist best ?pq = insert ?u (settled_set dist best pq)"
    by blast
  have nin: "?u \<notin> settled_set dist best pq"
    using nu by (simp add: settled_set_def)
  have card: "card (settled_set dist best ?pq) = Suc (card (settled_set dist best pq))"
    unfolding ss using nin by simp
  have bound: "dist ! x \<le> int (card (settled_set dist best pq)) * INT_MAX"
    if "x < length dist" "dist ! x \<noteq> LexiSSSP_INF" for x
    using W that by (simp add: wf_labels_def)
  have wf: "wf_labels g S dist best ?pq"
    unfolding wf_labels_def
  proof (intro conjI allI impI ballI, goal_cases)
    case (11 x)
    have "dist ! x \<le> int (card (settled_set dist best pq)) * INT_MAX"
      using bound 11 by simp
    also have "\<dots> \<le> int (card (settled_set dist best ?pq)) * INT_MAX"
      unfolding card by (simp add: INT_MAX_def)
    finally show ?case .
  next
    case 16 then show ?case using dq by simp
  qed (use W sub in \<open>auto simp: wf_labels_def\<close>)
  have mono: "mono_inv dist best ?pq"
    unfolding mono_inv_def
  proof (intro allI impI ballI)
    fix x j assume x: "x < length dist" "settled dist best ?pq x" and j: "j \<in> set ?pq"
    from j sub have j': "j \<in> set pq" by blast
    show "(dist ! x, best ! x) \<le> pq_key j"
    proof (cases "x = ?u")
      case True
      then show ?thesis using m j' s by auto
    next
      case False
      with x st have "settled dist best pq x" by simp
      with I x(1) j' show ?thesis unfolding loop_inv_def mono_inv_def by blast
    qed
  qed
  have closed: "closed_inv (m_edges g) (proc(?u := [])) dist best ?pq"
    unfolding closed_inv_def
  proof (intro allI impI ballI)
    fix x eid
    assume x: "x < length dist" "settled dist best ?pq x"
      and eid: "eid \<in> set ((proc(?u := [])) x)" and al: "alive (m_edges g ! nat eid)"
    from eid have xu: "x \<noteq> ?u" by (auto split: if_splits)
    with eid have e': "eid \<in> set (proc x)" by simp
    from xu x st have "settled dist best pq x" by simp
    with I x(1) e' al
    show "(dist ! nat (edge_v (m_edges g ! nat eid)), best ! nat (edge_v (m_edges g ! nat eid)))
       \<le> (dist ! x + edge_w (m_edges g ! nat eid), max (best ! x) (edge_w (m_edges g ! nat eid)))"
      unfolding loop_inv_def closed_inv_def by blast
  qed
  have below: "(dist ! x, best ! x) \<le> pq_key cur" if "x < length dist" "settled dist best ?pq x" for x
  proof (cases "x = ?u")
    case True
    then show ?thesis using s by simp
  next
    case False
    with that st have "settled dist best pq x" by simp
    with I that(1) c show ?thesis unfolding loop_inv_def mono_inv_def by blast
  qed
  have "pq_dist cur \<le> int (card (settled_set dist best pq)) * INT_MAX"
    using bound [OF cv(2) fin] s by (simp add: pq_key_def)
  then have cb: "pq_dist cur + INT_MAX \<le> int (card (settled_set dist best ?pq)) * INT_MAX"
    unfolding card by (simp add: algebra_simps)
  have "cur_inv cur dist best ?pq"
    unfolding cur_inv_def using cv s su below cb by blast
  with wf mono closed I ss nin show ?thesis by (simp add: loop_inv_def)
qed

subsection \<open>The loop terminates and keeps the invariants\<close>

lemma recompute_loop_Nil:
  "recompute_loop pqtop g (dist, best, []) = Some (Inr (dist, best, []))"
  by (subst recompute_loop.simps) simp

lemma recompute_loop_stale:
  assumes "pq \<noteq> []" "stale (pqtop pq) dist best = Inr True"
  shows "recompute_loop pqtop g (dist, best, pq)
         = recompute_loop pqtop g (dist, best, remove1 (pqtop pq) pq)"
  using assms by (subst recompute_loop.simps) (simp add: Let_def)

lemma recompute_loop_fresh:
  assumes "pq \<noteq> []" "stale (pqtop pq) dist best = Inr False"
    and "relax_edges g (pqtop pq) (outEdges g (pq_v (pqtop pq))) (dist, best, remove1 (pqtop pq) pq)
         = Inr st'"
  shows "recompute_loop pqtop g (dist, best, pq) = recompute_loop pqtop g st'"
  using assms by (subst recompute_loop.simps) (simp add: Let_def)

lemma wf_loop_measure: "wf loop_measure"
  by (simp add: loop_measure_def)

lemma loop_total:
  assumes T: "valid_top pqtop" and G: "adj_inv g" "weights_ok g"
  shows "loop_inv g S (\<lambda>x. outEdges g (int x)) (fst st) (fst (snd st)) (snd (snd st)) \<Longrightarrow>
     \<exists>dist' best'. recompute_loop pqtop g st = Some (Inr (dist', best', [])) \<and>
        loop_inv g S (\<lambda>x. outEdges g (int x)) dist' best' [] \<and> length dist' = length (fst st)"
  using wf_loop_measure
proof (induction st rule: wf_induct_rule)
  case (less st)
  obtain dist best pq where st: "st = (dist, best, pq)" by (cases st) auto
  let ?proc = "\<lambda>x. outEdges g (int x)"
  from less.prems have I: "loop_inv g S ?proc dist best pq" by (simp add: st)
  then have W: "wf_labels g S dist best pq" by (simp add: loop_inv_def)
  show ?case
  proof (cases "pq = []")
    case True
    with I show ?thesis by (simp add: st recompute_loop_Nil)
  next
    case False
    let ?cur = "pqtop pq" and ?pq = "remove1 (pqtop pq) pq"
    let ?u = "nat (pq_v ?cur)"
    have c: "?cur \<in> set pq" and m: "\<forall>j\<in>set pq. pq_key ?cur \<le> pq_key j"
      using valid_topD [OF T False] by blast+
    have cv: "0 \<le> pq_v ?cur" "?u < length dist" "length best = length dist"
      using W c by (simp_all add: wf_labels_def)
    note se = stale_eq [OF cv]
    show ?thesis
    proof (cases "pq_key ?cur = (dist ! ?u, best ! ?u)")
      case stale: False
      from pop_stale [OF I c stale] have
        I': "loop_inv g S ?proc dist best ?pq" and
        ss: "settled_set dist best ?pq = settled_set dist best pq" by blast+
      have "length ?pq < length pq"
        using c False by (simp add: length_remove1 Suc_le_eq)
      then have "((dist, best, ?pq), st) \<in> loop_measure"
        by (simp add: loop_measure_def st ss)
      from less.IH [OF this] I' obtain dist' best' where
        "recompute_loop pqtop g (dist, best, ?pq) = Some (Inr (dist', best', []))"
        "loop_inv g S ?proc dist' best' []" "length dist' = length dist"
        by auto
      moreover have "recompute_loop pqtop g (dist, best, pq) = recompute_loop pqtop g (dist, best, ?pq)"
        using stale by (intro recompute_loop_stale [OF False]) (simp add: se)
      ultimately show ?thesis by (simp add: st)
    next
      case fresh: True
      from pop_fresh [OF I c m fresh] have
        I1: "loop_inv g S (?proc(?u := [])) dist best ?pq" and
        K1: "cur_inv ?cur dist best ?pq" and
        ss1: "settled_set dist best ?pq = insert ?u (settled_set dist best pq)" and
        nin: "?u \<notin> settled_set dist best pq" by blast+
      from relax_edges_inv [OF G I1 K1 subset_refl] obtain dist1 best1 pq1 where
        r: "relax_edges g ?cur (outEdges g (pq_v ?cur)) (dist, best, ?pq) = Inr (dist1, best1, pq1)" and
        I2: "loop_inv g S ((?proc(?u := []))(?u := (?proc(?u := [])) ?u @ outEdges g (pq_v ?cur))) dist1 best1 pq1" and
        ss2: "settled_set dist1 best1 pq1 = settled_set dist best ?pq" and
        len: "length dist1 = length dist"
        by blast
      have "(?proc(?u := []))(?u := (?proc(?u := [])) ?u @ outEdges g (pq_v ?cur)) = ?proc"
        using cv(1) by (auto simp: fun_eq_iff)
      with I2 have I3: "loop_inv g S ?proc dist1 best1 pq1" by simp
      have card: "card (settled_set dist1 best1 pq1) = Suc (card (settled_set dist best pq))"
        unfolding ss2 ss1 using nin by simp
      moreover have "card (settled_set dist1 best1 pq1) \<le> length dist"
        using settled_set_card [of dist1 best1 pq1] len by simp
      ultimately have "length dist1 - card (settled_set dist1 best1 pq1)
          < length dist - card (settled_set dist best pq)"
        using len by simp
      then have "((dist1, best1, pq1), st) \<in> loop_measure"
        by (simp add: loop_measure_def st)
      from less.IH [OF this] I3 obtain dist' best' where
        "recompute_loop pqtop g (dist1, best1, pq1) = Some (Inr (dist', best', []))"
        "loop_inv g S ?proc dist' best' []" "length dist' = length dist1"
        by auto
      moreover have "recompute_loop pqtop g (dist, best, pq) = recompute_loop pqtop g (dist1, best1, pq1)"
        using fresh r by (intro recompute_loop_fresh [OF False]) (simp_all add: se)
      ultimately show ?thesis by (simp add: st len)
    qed
  qed
qed

subsection \<open>The labels at the end of the loop\<close>

lemma lex_relax_mono:
  fixes a b c d w :: int
  assumes "(a, b) \<le> (c, d)"
  shows "(a + w, max b w) \<le> (c + w, max d w)"
  using assms by auto

lemma final_le:
  assumes G: "adj_inv g" "weights_ok g"
    and I: "loop_inv g S (\<lambda>x. outEdges g (int x)) dist best []"
  shows "is_path (m_edges g) S p t \<Longrightarrow>
     0 \<le> t \<and> nat t < length dist \<and> dist ! nat t < LexiSSSP_INF \<and>
     (dist ! nat t, best ! nat t) \<le> (path_sum (m_edges g) p, path_max (m_edges g) p)"
proof (induction p arbitrary: t rule: rev_induct)
  case Nil
  then have "t = S" by simp
  then show ?case using I by (simp add: loop_inv_def wf_labels_def LexiSSSP_INF_def)
next
  case (snoc i p)
  let ?es = "m_edges g"
  let ?e = "?es ! i"
  let ?u = "nat (edge_u ?e)"
  have W: "wf_labels g S dist best []" using I by (simp add: loop_inv_def)
  from snoc.prems have i: "i < length ?es" "alive ?e" "edge_v ?e = t"
    and p: "is_path ?es S p (edge_u ?e)"
    by (simp_all add: is_path_snoc)
  from snoc.IH [OF p] have u: "0 \<le> edge_u ?e" "?u < length dist" "dist ! ?u < LexiSSSP_INF"
    "(dist ! ?u, best ! ?u) \<le> (path_sum ?es p, path_max ?es p)"
    by simp_all
  have su: "settled dist best [] ?u" using u(3) by (simp add: settled_def)
  have "?u < length (m_adj g) \<and> int i \<in> set (m_adj g ! ?u) \<and> 0 \<le> edge_v ?e \<and>
        nat (edge_v ?e) < length (m_adj g)"
    using G(1) i(1) unfolding adj_inv_def by blast
  then have a: "int i \<in> set (outEdges g (int ?u))" "0 \<le> t" "nat t < length (m_adj g)"
    using i(3) u(1) by (simp_all add: outEdges_def)
  have "closed_inv ?es (\<lambda>x. outEdges g (int x)) dist best []" using I by (simp add: loop_inv_def)
  with u(2) su a(1) i(2) have c: "(dist ! nat t, best ! nat t)
      \<le> (dist ! ?u + edge_w ?e, max (best ! ?u) (edge_w ?e))"
    unfolding closed_inv_def i(3) [symmetric] by fastforce
  also have "\<dots> \<le> (path_sum ?es p + edge_w ?e, max (path_max ?es p) (edge_w ?e))"
    using u(4) by (rule lex_relax_mono)
  finally have le: "(dist ! nat t, best ! nat t) \<le> (path_sum ?es (p @ [i]), path_max ?es (p @ [i]))"
    by simp
  have t: "nat t < length dist" using a(3) W by (simp add: wf_labels_def)
  have "dist ! ?u \<le> int (card (settled_set dist best [])) * INT_MAX"
    using W u(2,3) by (simp add: wf_labels_def)
  moreover have "edge_w ?e \<le> INT_MAX" using G(2) i(1) by (simp add: weights_ok_def)
  moreover have "int (card (settled_set dist best [])) * INT_MAX + INT_MAX < LexiSSSP_INF"
    using W by (intro card_bound [OF settled_set_card]) (simp add: wf_labels_def)
  moreover have "dist ! nat t \<le> dist ! ?u + edge_w ?e" using c by auto
  ultimately have "dist ! nat t < LexiSSSP_INF" by linarith
  with a(2) t le show ?case by simp
qed

lemma loop_inv_optimal:
  assumes G: "adj_inv g" "weights_ok g"
    and I: "loop_inv g S (\<lambda>x. outEdges g (int x)) dist best []"
  shows "optimal (m_edges g) S dist best"
  unfolding optimal_def
proof (intro conjI allI)
  have W: "wf_labels g S dist best []" using I by (simp add: loop_inv_def)
  then show "length best = length dist" by (simp add: wf_labels_def)
  fix x
  note fl = final_le [OF G I]
  show "if x < length dist \<and> dist ! x \<noteq> LexiSSSP_INF
        then 0 \<le> dist ! x \<and> dist ! x < LexiSSSP_INF \<and> 0 \<le> best ! x \<and>
             (\<exists>p. is_path (m_edges g) S p (int x) \<and> path_sum (m_edges g) p = dist ! x \<and>
                  path_max (m_edges g) p = best ! x) \<and>
             (\<forall>p. is_path (m_edges g) S p (int x) \<longrightarrow>
                  (dist ! x, best ! x) \<le> (path_sum (m_edges g) p, path_max (m_edges g) p))
        else (\<forall>p. \<not> is_path (m_edges g) S p (int x)) \<and> (x < length dist \<longrightarrow> best ! x = INT_MAX)"
  proof (cases "x < length dist \<and> dist ! x \<noteq> LexiSSSP_INF")
    case True
    then have "0 \<le> dist ! x \<and> 0 \<le> best ! x" using W by (simp add: wf_labels_def)
    moreover have "\<exists>p. is_path (m_edges g) S p (int x) \<and> path_sum (m_edges g) p = dist ! x \<and>
                  path_max (m_edges g) p = best ! x"
      using I True by (simp add: loop_inv_def sound_inv_def)
    moreover from this obtain p where "is_path (m_edges g) S p (int x)" by blast
    from fl [OF this] have "dist ! x < LexiSSSP_INF" by simp
    moreover have "\<forall>p. is_path (m_edges g) S p (int x) \<longrightarrow>
                  (dist ! x, best ! x) \<le> (path_sum (m_edges g) p, path_max (m_edges g) p)"
      using fl [of _ "int x"] by simp
    ultimately show ?thesis using True by simp
  next
    case False
    have "\<not> is_path (m_edges g) S p (int x)" for p
      using fl [of p "int x"] False by auto
    moreover have "x < length dist \<longrightarrow> best ! x = INT_MAX"
      using False W by (auto simp: wf_labels_def)
    ultimately show ?thesis using False by simp
  qed
qed

lemma optimal_unique:
  assumes "optimal es S d1 b1" "optimal es S d2 b2" "length d1 = length d2"
  shows "d1 = d2 \<and> b1 = b2"
proof -
  have l: "length b1 = length d1" "length b2 = length d2"
    using assms by (simp_all add: optimal_def)
  have "d1 ! x = d2 ! x \<and> b1 ! x = b2 ! x" if x: "x < length d1" for x
  proof (cases "\<exists>p. is_path es S p (int x)")
    case True
    from assms(1) True x have 1: "d1 ! x \<noteq> LexiSSSP_INF"
      unfolding optimal_def by (metis (no_types, lifting))
    from assms(2) True x have 2: "d2 ! x \<noteq> LexiSSSP_INF"
      unfolding optimal_def by (metis (no_types, lifting))
    from assms(1) 1 x have o1: "\<exists>p. is_path es S p (int x) \<and> path_sum es p = d1 ! x \<and> path_max es p = b1 ! x"
      "\<forall>p. is_path es S p (int x) \<longrightarrow> (d1 ! x, b1 ! x) \<le> (path_sum es p, path_max es p)"
      unfolding optimal_def by (metis (no_types, lifting))+
    from assms(2,3) 2 x have o2: "\<exists>p. is_path es S p (int x) \<and> path_sum es p = d2 ! x \<and> path_max es p = b2 ! x"
      "\<forall>p. is_path es S p (int x) \<longrightarrow> (d2 ! x, b2 ! x) \<le> (path_sum es p, path_max es p)"
      unfolding optimal_def by (metis (no_types, lifting))+
    from o1(1) o2(2) have "(d2 ! x, b2 ! x) \<le> (d1 ! x, b1 ! x)" by metis
    moreover from o2(1) o1(2) have "(d1 ! x, b1 ! x) \<le> (d2 ! x, b2 ! x)" by metis
    ultimately have "(d1 ! x, b1 ! x) = (d2 ! x, b2 ! x)" by (rule order_antisym [rotated])
    then show ?thesis by simp
  next
    case False
    from assms(1) False x have 1: "d1 ! x = LexiSSSP_INF \<and> b1 ! x = INT_MAX"
      unfolding optimal_def by (metis (no_types, lifting))
    from assms(2,3) False x have 2: "d2 ! x = LexiSSSP_INF \<and> b2 ! x = INT_MAX"
      unfolding optimal_def by (metis (no_types, lifting))
    from 1 2 show ?thesis by simp
  qed
  then show ?thesis using l assms(3) by (auto intro: nth_equalityI)
qed

subsection \<open>The engine\<close>

lemma ensureNode_capacity [simp]: "ensureNode g (nodeCapacity g) = g"
proof -
  have "nat (nodeCapacity g + 1) = length (m_adj g)"
    by (simp add: nodeCapacity_def)
  then have "nodeCapacity g < 0 \<or> \<not> length (m_adj g) < nat (nodeCapacity g) + 1"
    by linarith
  then show ?thesis
    by (auto simp: ensureNode_def Let_def)
qed

lemma growToInclude_g [simp]: "m_g (growToInclude e x) = ensureNode (m_g e) x"
  by (simp add: growToInclude_def Let_def ensureNode_def)

lemma growToInclude_S [simp]: "m_S (growToInclude e x) = m_S e"
  by (simp add: growToInclude_def Let_def)

lemma growToInclude_dirty [simp]: "m_dirty (growToInclude e x) = m_dirty e"
  by (simp add: growToInclude_def Let_def)

lemma growToInclude_dist:
  "m_dist (growToInclude e x) = m_dist e @ replicate (nat (x + 1) - length (m_dist e)) LexiSSSP_INF"
  by (auto simp: growToInclude_def Let_def resize_def nat_add_distrib)

lemma growToInclude_bestMax:
  "length (m_bestMax e) = length (m_dist e) \<Longrightarrow>
   m_bestMax (growToInclude e x) = m_bestMax e @ replicate (nat (x + 1) - length (m_bestMax e)) INT_MAX"
  by (auto simp: growToInclude_def Let_def resize_def nat_add_distrib)

lemma growToInclude_covered:
  "length (m_bestMax e) = length (m_dist e) \<Longrightarrow> nat (x + 1) \<le> length (m_dist e) \<Longrightarrow>
   nat (x + 1) \<le> length (m_adj (m_g e)) \<Longrightarrow> growToInclude e x = e"
  by (auto simp: growToInclude_def Let_def ensureNode_def nat_add_distrib)

lemma init_loop_inv:
  assumes "length (m_adj g) \<le> n" "int n \<le> 2 ^ 31" "0 \<le> S" "nat S < n"
  shows "loop_inv g S proc ((replicate n LexiSSSP_INF)[nat S := 0])
           ((replicate n INT_MAX)[nat S := 0]) [PQItem 0 0 S]"
proof -
  let ?dist = "(replicate n LexiSSSP_INF)[nat S := 0]" and ?best = "(replicate n INT_MAX)[nat S := 0]"
  let ?pq = "[PQItem 0 0 S]"
  have ns: "\<not> settled ?dist ?best ?pq x" if "x < n" for x
    using that assms(3,4) by (cases "x = nat S") (simp_all add: settled_def)
  then have ss: "settled_set ?dist ?best ?pq = {}"
    by (auto simp: settled_set_def)
  have "wf_labels g S ?dist ?best ?pq"
    unfolding wf_labels_def ss using assms
    by (auto simp: nth_list_update LexiSSSP_INF_def INT_MAX_def pq_key_def)
  moreover have "mono_inv ?dist ?best ?pq"
    using ns by (simp add: mono_inv_def)
  moreover have "closed_inv (m_edges g) proc ?dist ?best ?pq"
    using ns by (simp add: closed_inv_def)
  moreover have "sound_inv (m_edges g) S ?dist ?best"
    unfolding sound_inv_def
  proof (intro allI impI)
    fix x assume "x < length ?dist" "?dist ! x \<noteq> LexiSSSP_INF"
    then have "x = nat S" by (cases "x = nat S") simp_all
    then have "is_path (m_edges g) S [] (int x) \<and> path_sum (m_edges g) [] = ?dist ! x \<and>
               path_max (m_edges g) [] = ?best ! x"
      using assms(3,4) by simp
    then show "\<exists>p. is_path (m_edges g) S p (int x) \<and> path_sum (m_edges g) p = ?dist ! x \<and>
               path_max (m_edges g) p = ?best ! x" by blast
  qed
  ultimately show ?thesis by (simp add: loop_inv_def)
qed

lemma recompute_unfold:
  assumes L: "length (m_bestMax e) = length (m_dist e)" and S: "0 \<le> m_S e"
  shows "recompute pqtop e =
     (case recompute_loop pqtop (ensureNode (m_g e) (m_S e))
             ((replicate (recompute_size e) LexiSSSP_INF)[nat (m_S e) := 0],
              (replicate (recompute_size e) INT_MAX)[nat (m_S e) := 0],
              [PQItem 0 0 (m_S e)]) of
        None \<Rightarrow> None
      | Some (Inl err) \<Rightarrow> Some (Inl err)
      | Some (Inr (dist, best, pq)) \<Rightarrow>
          Some (Inr \<lparr>m_g = ensureNode (m_g e) (m_S e), m_S = m_S e, m_dist = dist,
                     m_bestMax = best, m_dirty = False\<rparr>))"
proof -
  define e1 where "e1 = growToInclude e (nodeCapacity (m_g e))"
  define e2 where "e2 = e1\<lparr>m_dist := replicate (length (m_dist e1)) LexiSSSP_INF,
                  m_bestMax := replicate (length (m_bestMax e1)) INT_MAX\<rparr>"
  define e3 where "e3 = growToInclude e2 (m_S e2)"
  let ?n1 = "max (length (m_dist e)) (length (m_adj (m_g e)))"
  have c: "nat (nodeCapacity (m_g e) + 1) = length (m_adj (m_g e))"
    by (simp add: nodeCapacity_def)
  have d1: "length (m_dist e1) = ?n1" "length (m_bestMax e1) = ?n1" "m_g e1 = m_g e" "m_S e1 = m_S e"
    using L by (auto simp: e1_def growToInclude_dist growToInclude_bestMax c)
  have e2: "m_dist e2 = replicate ?n1 LexiSSSP_INF" "m_bestMax e2 = replicate ?n1 INT_MAX"
    "m_g e2 = m_g e" "m_S e2 = m_S e"
    using d1 by (simp_all add: e2_def)
  have l2: "length (m_bestMax e2) = length (m_dist e2)"
    unfolding e2 by simp
  have n: "?n1 + (nat (m_S e + 1) - ?n1) = recompute_size e"
    by (simp add: recompute_size_def)
  have e3: "m_dist e3 = replicate (recompute_size e) LexiSSSP_INF"
    "m_bestMax e3 = replicate (recompute_size e) INT_MAX"
    "m_g e3 = ensureNode (m_g e) (m_S e)" "m_S e3 = m_S e"
    unfolding e3_def growToInclude_dist growToInclude_bestMax [OF l2] growToInclude_g growToInclude_S e2
    by (simp_all add: replicate_add [symmetric] n del: replicate_add)
  have r: "nat (m_S e) < recompute_size e"
    using S by (simp add: recompute_size_def)
  have eq: "e3\<lparr>m_dist := dist, m_bestMax := best, m_dirty := False\<rparr>
      = \<lparr>m_g = ensureNode (m_g e) (m_S e), m_S = m_S e, m_dist = dist,
                     m_bestMax = best, m_dirty = False\<rparr>" for dist best
    using e3(3,4) by (intro LexiSSSP.equality) simp_all
  have "recompute pqtop e =
     (if \<not> (0 \<le> m_S e3 \<and> nat (m_S e3) < length (m_dist e3) \<and> nat (m_S e3) < length (m_bestMax e3))
      then Some (Inl OutOfBounds)
      else (case recompute_loop pqtop (m_g e3)
                   ((m_dist e3)[nat (m_S e3) := 0], (m_bestMax e3)[nat (m_S e3) := 0],
                    [PQItem 0 0 (m_S e3)]) of
              None \<Rightarrow> None
            | Some (Inl err) \<Rightarrow> Some (Inl err)
            | Some (Inr (dist, best, pq)) \<Rightarrow>
                Some (Inr (e3\<lparr>m_dist := dist, m_bestMax := best, m_dirty := False\<rparr>))))"
    unfolding recompute_def e3_def e2_def e1_def Let_def ..
  then show ?thesis
    unfolding e3 eq using S r by simp
qed

lemma optimal_grow:
  assumes "optimal es S dist best"
  shows "optimal es S (dist @ replicate k LexiSSSP_INF) (best @ replicate k INT_MAX)"
proof -
  have l: "length best = length dist" using assms by (simp add: optimal_def)
  have o: "if x < length dist \<and> dist ! x \<noteq> LexiSSSP_INF
          then 0 \<le> dist ! x \<and> dist ! x < LexiSSSP_INF \<and> 0 \<le> best ! x \<and>
               (\<exists>p. is_path es S p (int x) \<and> path_sum es p = dist ! x \<and> path_max es p = best ! x) \<and>
               (\<forall>p. is_path es S p (int x) \<longrightarrow>
                    (dist ! x, best ! x) \<le> (path_sum es p, path_max es p))
          else (\<forall>p. \<not> is_path es S p (int x)) \<and> (x < length dist \<longrightarrow> best ! x = INT_MAX)" for x
    using assms unfolding optimal_def by blast
  show ?thesis
    unfolding optimal_def
  proof (intro conjI allI)
    show "length (best @ replicate k INT_MAX) = length (dist @ replicate k LexiSSSP_INF)"
      using l by simp
    fix x
    let ?d = "dist @ replicate k LexiSSSP_INF" and ?b = "best @ replicate k INT_MAX"
    show "if x < length ?d \<and> ?d ! x \<noteq> LexiSSSP_INF
          then 0 \<le> ?d ! x \<and> ?d ! x < LexiSSSP_INF \<and> 0 \<le> ?b ! x \<and>
               (\<exists>p. is_path es S p (int x) \<and> path_sum es p = ?d ! x \<and> path_max es p = ?b ! x) \<and>
               (\<forall>p. is_path es S p (int x) \<longrightarrow>
                    (?d ! x, ?b ! x) \<le> (path_sum es p, path_max es p))
          else (\<forall>p. \<not> is_path es S p (int x)) \<and> (x < length ?d \<longrightarrow> ?b ! x = INT_MAX)"
    proof (cases "x < length dist")
      case True
      then have "?d ! x = dist ! x" "?b ! x = best ! x" "x < length ?d"
        using l by (simp_all add: nth_append)
      then show ?thesis using o [of x] True by (auto split: if_splits)
    next
      case False
      then have "\<forall>p. \<not> is_path es S p (int x)" using o [of x] by simp
      moreover have "x < length ?d \<longrightarrow> ?d ! x = LexiSSSP_INF \<and> ?b ! x = INT_MAX"
        using False l by (simp add: nth_append)
      ultimately show ?thesis by auto
    qed
  qed
qed

lemma engine_ok_grow:
  assumes "engine_ok e" "x < 2 ^ 31 - 1"
  shows "engine_ok (growToInclude e x)"
proof -
  have l: "length (m_bestMax e) = length (m_dist e)" using assms by (simp add: engine_ok_def)
  have "int (length (m_dist (growToInclude e x))) < 2 ^ 31"
    using assms by (auto simp: engine_ok_def growToInclude_dist)
  moreover have "optimal (m_edges (m_g e)) (m_S e) (m_dist (growToInclude e x)) (m_bestMax (growToInclude e x))"
    if "\<not> m_dirty e"
    using that assms(1) l unfolding growToInclude_dist growToInclude_bestMax [OF l]
    by (auto simp: engine_ok_def intro: optimal_grow)
  moreover have "length (m_bestMax (growToInclude e x)) = length (m_dist (growToInclude e x))"
    using l by (simp add: growToInclude_dist growToInclude_bestMax)
  ultimately show ?thesis
    using assms by (simp add: engine_ok_def graph_ok_ensureNode)
qed

lemma recompute_spec:
  assumes T: "valid_top pqtop" and E: "engine_ok e"
  shows "\<exists>dist' best'. recompute pqtop e =
            Some (Inr \<lparr>m_g = ensureNode (m_g e) (m_S e), m_S = m_S e, m_dist = dist',
                       m_bestMax = best', m_dirty = False\<rparr>) \<and>
          optimal (m_edges (m_g e)) (m_S e) dist' best' \<and> length dist' = recompute_size e"
proof -
  let ?g = "ensureNode (m_g e) (m_S e)" and ?n = "recompute_size e" and ?S = "m_S e"
  have S: "0 \<le> ?S" "?S < 2 ^ 31 - 1" and L: "length (m_bestMax e) = length (m_dist e)"
    and G: "graph_ok (m_g e)" and D: "int (length (m_dist e)) < 2 ^ 31"
    using E by (simp_all add: engine_ok_def)
  have G': "graph_ok ?g" using G S(2) by (rule graph_ok_ensureNode)
  then have g: "adj_inv ?g" "weights_ok ?g" by (simp_all add: graph_ok_def)
  have n: "length (m_adj ?g) \<le> ?n" "int ?n \<le> 2 ^ 31" "nat ?S < ?n"
    using S D G by (auto simp: recompute_size_def ensureNode_adj_length graph_ok_def)
  note I = init_loop_inv [OF n(1,2) S(1) n(3), of "\<lambda>x. outEdges ?g (int x)"]
  let ?st = "((replicate ?n LexiSSSP_INF)[nat ?S := 0],
          (replicate ?n INT_MAX)[nat ?S := 0], [PQItem 0 0 ?S])"
  have "\<exists>dist' best'. recompute_loop pqtop ?g ?st = Some (Inr (dist', best', [])) \<and>
        loop_inv ?g ?S (\<lambda>x. outEdges ?g (int x)) dist' best' [] \<and> length dist' = length (fst ?st)"
    by (rule loop_total [OF T g]) (simp add: I)
  then obtain dist' best' where
    r: "recompute_loop pqtop ?g ?st = Some (Inr (dist', best', []))"
    and I': "loop_inv ?g ?S (\<lambda>x. outEdges ?g (int x)) dist' best' []"
    and len: "length dist' = ?n"
    by auto
  from loop_inv_optimal [OF g I'] have "optimal (m_edges (m_g e)) ?S dist' best'" by simp
  with r len show ?thesis
    unfolding recompute_unfold [OF L S(1)] by simp
qed

lemma ask_spec:
  assumes T: "valid_top pqtop" and E: "engine_ok e" and t: "0 \<le> t" "t < 2 ^ 31 - 1"
  shows "\<exists>r e'. ask pqtop e t = Some (Inr (r, e')) \<and> engine_ok e' \<and> \<not> m_dirty e' \<and>
     m_S e' = m_S e \<and> m_edges (m_g e') = m_edges (m_g e) \<and>
     optimal (m_edges (m_g e)) (m_S e) (m_dist e') (m_bestMax e') \<and>
     nat t < length (m_dist e') \<and> nat t < length (m_adj (m_g e')) \<and>
     length (m_dist e) \<le> length (m_dist e') \<and>
     r = (if m_dist e' ! nat t = LexiSSSP_INF then - 1 else m_bestMax e' ! nat t)"
proof -
  let ?e1 = "growToInclude e t"
  have E1: "engine_ok ?e1" using E t(2) by (rule engine_ok_grow)
  have t1: "nat t < length (m_dist ?e1)"
    using t(1) by (simp add: growToInclude_dist)
  have t2: "nat t < length (m_adj (m_g ?e1))"
    using t(1) by (simp add: ensureNode_adj_length)
  have t3: "length (m_dist e) \<le> length (m_dist ?e1)"
    by (simp add: growToInclude_dist)
  have "\<exists>e'. (if m_dirty ?e1 then recompute pqtop ?e1 else Some (Inr ?e1)) = Some (Inr e') \<and>
     engine_ok e' \<and> \<not> m_dirty e' \<and> m_S e' = m_S e \<and> m_edges (m_g e') = m_edges (m_g e) \<and>
     optimal (m_edges (m_g e)) (m_S e) (m_dist e') (m_bestMax e') \<and> nat t < length (m_dist e') \<and>
     nat t < length (m_adj (m_g e')) \<and> length (m_dist e) \<le> length (m_dist e')"
  proof (cases "m_dirty ?e1")
    case True
    from recompute_spec [OF T E1] obtain dist' best' where
      r: "recompute pqtop ?e1 =
            Some (Inr \<lparr>m_g = ensureNode (m_g ?e1) (m_S ?e1), m_S = m_S ?e1, m_dist = dist',
                       m_bestMax = best', m_dirty = False\<rparr>)"
      and o: "optimal (m_edges (m_g ?e1)) (m_S ?e1) dist' best'"
      and l: "length dist' = recompute_size ?e1"
      by blast
    let ?e' = "\<lparr>m_g = ensureNode (m_g ?e1) (m_S ?e1), m_S = m_S ?e1, m_dist = dist',
                       m_bestMax = best', m_dirty = False\<rparr>"
    have S: "m_S e < 2 ^ 31 - 1" "0 \<le> m_S e" using E by (simp_all add: engine_ok_def)
    have "graph_ok (m_g ?e')"
      using E1 S by (simp add: engine_ok_def graph_ok_ensureNode)
    moreover have "int (length dist') < 2 ^ 31"
      using E1 S unfolding l recompute_size_def by (auto simp: engine_ok_def graph_ok_def)
    moreover have "length best' = length dist'" using o by (simp add: optimal_def)
    moreover have "nat t < length dist'" "length (m_dist e) \<le> length dist'"
      using t1 t3 unfolding l recompute_size_def by simp_all
    ultimately have "engine_ok ?e'" "nat t < length (m_dist ?e')" "length (m_dist e) \<le> length (m_dist ?e')"
      using o S by (simp_all add: engine_ok_def)
    moreover have "nat t < length (m_adj (m_g ?e'))"
      using t(1) by (simp add: ensureNode_adj_length)
    ultimately show ?thesis using r o True by simp
  next
    case False
    then have "optimal (m_edges (m_g e)) (m_S e) (m_dist ?e1) (m_bestMax ?e1)"
      using E1 by (simp add: engine_ok_def)
    with False E1 t1 t2 t3 show ?thesis by simp
  qed
  then obtain e' where
    r: "(if m_dirty ?e1 then recompute pqtop ?e1 else Some (Inr ?e1)) = Some (Inr e')"
    and p: "engine_ok e'" "\<not> m_dirty e'" "m_S e' = m_S e" "m_edges (m_g e') = m_edges (m_g e)"
      "optimal (m_edges (m_g e)) (m_S e) (m_dist e') (m_bestMax e')" "nat t < length (m_dist e')"
      "nat t < length (m_adj (m_g e'))" "length (m_dist e) \<le> length (m_dist e')"
    by blast
  have l: "length (m_bestMax e') = length (m_dist e')" using p(1) by (simp add: engine_ok_def)
  have "ask pqtop e t =
      Some (Inr (if m_dist e' ! nat t = LexiSSSP_INF then - 1 else m_bestMax e' ! nat t, e'))"
    unfolding ask_def Let_def r using p(6) l t(1) by (simp add: at_index_def)
  with p show ?thesis by blast
qed

subsection \<open>Commands keep the engine well-formed; the answers do not depend on the queue\<close>

lemma first_top_valid: "valid_top first_top"
proof -
  have "first_top pq \<in> set pq \<and> (\<forall>x\<in>set pq. pq_key (first_top pq) \<le> pq_key x)" if "pq \<noteq> []" for pq
    using that
  proof (induction pq rule: first_top.induct)
    case (3 x y ys)
    let ?m = "first_top (y # ys)"
    from 3 have m: "?m \<in> set (y # ys)" "\<forall>z\<in>set (y # ys). pq_key ?m \<le> pq_key z" by simp_all
    show ?case
    proof (cases "pq_less x ?m")
      case True
      then have "pq_key ?m \<le> pq_key x" by (simp add: pq_less_key less_imp_le)
      with m True show ?thesis by (auto simp: Let_def)
    next
      case False
      then have "pq_key x \<le> pq_key ?m" by (simp only: pq_less_key not_less)
      with m(2) have "\<forall>z\<in>set (y # ys). pq_key x \<le> pq_key z" by (meson order_trans)
      with False show ?thesis by (auto simp: Let_def)
    qed
  qed simp_all
  then show ?thesis
    unfolding valid_top_def by (simp only: pq_less_key not_less) blast
qed

lemma engine_ok_init:
  assumes "graph_ok g" "0 \<le> S" "S < 2 ^ 31 - 1"
  shows "engine_ok (LexiSSSP_init g S)"
  using assms by (simp add: engine_ok_def LexiSSSP_init_def nodeCapacity_def graph_ok_def)

lemma engine_ok_touch: "engine_ok e \<Longrightarrow> engine_ok (touch e)"
  by (simp add: engine_ok_def touch_def)

lemma engine_ok_addEdgeCmd:
  assumes E: "engine_ok e"
    and a: "0 \<le> u" "u < 2 ^ 31 - 1" "0 \<le> v" "v < 2 ^ 31 - 1" "0 \<le> w" "w \<le> INT_MAX"
      "int (length (m_edges (m_g e))) + 1 < 2 ^ 31"
  shows "\<exists>e'. addEdgeCmd e u v w = Inr e' \<and> engine_ok e' \<and> m_dirty e' \<and> m_S e' = m_S e \<and>
           m_edges (m_g e') = m_edges (m_g e) @ [Edge u v w True] \<and>
           length (m_dist e) \<le> length (m_dist e')"
proof -
  have G: "graph_ok (m_g e)" and L: "length (m_bestMax e) = length (m_dist e)"
    using E by (simp_all add: engine_ok_def)
  from graph_ok_addEdge [OF G a] obtain g' where
    g': "addEdge (m_g e) u v w = Inr (int (length (m_edges (m_g e))), g')" "graph_ok g'"
    "m_edges g' = m_edges (m_g e) @ [Edge u v w True]"
    by blast
  let ?e1 = "growToInclude (e\<lparr>m_g := g'\<rparr>) (max u v)"
  have m: "max u v < 2 ^ 31 - 1" using a by simp
  have "graph_ok (m_g ?e1)" using g'(2) m by (simp add: graph_ok_ensureNode)
  moreover have "length (m_bestMax ?e1) = length (m_dist ?e1)"
    using L by (simp add: growToInclude_dist growToInclude_bestMax)
  moreover have "int (length (m_dist ?e1)) < 2 ^ 31"
    using E m by (auto simp: growToInclude_dist engine_ok_def)
  ultimately have "engine_ok (?e1\<lparr>m_dirty := True\<rparr>)"
    using E by (simp add: engine_ok_def)
  moreover have "addEdgeCmd e u v w = Inr (?e1\<lparr>m_dirty := True\<rparr>)"
    by (simp add: addEdgeCmd_def g'(1))
  moreover have "length (m_dist e) \<le> length (m_dist ?e1)"
    by (simp add: growToInclude_dist)
  ultimately show ?thesis using g'(3) by simp
qed

lemma engine_ok_removeEdgeCmd:
  assumes E: "engine_ok e"
  shows "\<exists>e'. removeEdgeCmd e u v w = Inr e' \<and> engine_ok e' \<and> m_S e' = m_S e \<and>
           length (m_edges (m_g e')) = length (m_edges (m_g e))"
proof -
  have G: "graph_ok (m_g e)" using E by (simp add: engine_ok_def)
  from graph_ok_removeEdge [OF G, of u v w] obtain b g' where
    r: "removeEdge (m_g e) u v w = Inr (b, g')" "graph_ok g'" "\<not> b \<longrightarrow> g' = m_g e"
    "length (m_edges g') = length (m_edges (m_g e))"
    by blast
  show ?thesis
  proof (cases b)
    case True
    then have "removeEdgeCmd e u v w = Inr (e\<lparr>m_g := g', m_dirty := True\<rparr>)"
      by (simp add: removeEdgeCmd_def r(1))
    moreover have "engine_ok (e\<lparr>m_g := g', m_dirty := True\<rparr>)"
      using E r(2) by (simp add: engine_ok_def)
    ultimately show ?thesis using r(4) by simp
  next
    case False
    with r(3) have "removeEdgeCmd e u v w = Inr e"
      by (simp add: removeEdgeCmd_def r(1))
    with E show ?thesis by simp
  qed
qed

lemma exec_ok:
  assumes T: "valid_top pqtop"
  shows "engine_ok e \<Longrightarrow> list_all cmd_ok cs \<Longrightarrow>
     int (length (m_edges (m_g e)) + length cs) < 2 ^ 31 \<Longrightarrow>
     \<exists>out e'. exec pqtop e cs = Some (Inr (out, e')) \<and> engine_ok e' \<and> m_S e' = m_S e"
proof (induction cs arbitrary: e)
  case Nil
  then show ?case by simp
next
  case (Cons c cs)
  show ?case
  proof (cases c)
    case (ADD u v w)
    with Cons.prems have "0 \<le> u" "u < 2 ^ 31 - 1" "0 \<le> v" "v < 2 ^ 31 - 1" "0 \<le> w" "w \<le> INT_MAX"
      "int (length (m_edges (m_g e))) + 1 < 2 ^ 31"
      by simp_all
    from engine_ok_addEdgeCmd [OF Cons.prems(1) this] obtain e1 where
      e1: "addEdgeCmd e u v w = Inr e1" "engine_ok e1" "m_S e1 = m_S e"
      "m_edges (m_g e1) = m_edges (m_g e) @ [Edge u v w True]" by blast
    have "int (length (m_edges (m_g e1)) + length cs) < 2 ^ 31"
      using Cons.prems(3) by (simp add: e1(4))
    from Cons.IH [OF e1(2) _ this] Cons.prems(2) e1(1,3) show ?thesis by (simp add: ADD)
  next
    case (REM u v w)
    from engine_ok_removeEdgeCmd [OF Cons.prems(1), of u v w] obtain e1 where
      e1: "removeEdgeCmd e u v w = Inr e1" "engine_ok e1" "m_S e1 = m_S e"
      "length (m_edges (m_g e1)) = length (m_edges (m_g e))" by blast
    have "int (length (m_edges (m_g e1)) + length cs) < 2 ^ 31"
      using Cons.prems(3) by (simp add: e1(4))
    from Cons.IH [OF e1(2) _ this] Cons.prems(2) e1(1,3) show ?thesis by (simp add: REM)
  next
    case (ASK t)
    with Cons.prems have "0 \<le> t" "t < 2 ^ 31 - 1" by simp_all
    from ask_spec [OF T Cons.prems(1) this] obtain r e1 where
      e1: "ask pqtop e t = Some (Inr (r, e1))" "engine_ok e1" "m_S e1 = m_S e"
      "m_edges (m_g e1) = m_edges (m_g e)" by blast
    have "int (length (m_edges (m_g e1)) + length cs) < 2 ^ 31"
      using Cons.prems(3) by (simp add: e1(4))
    from Cons.IH [OF e1(2) _ this] Cons.prems(2) obtain out e' where
      "exec pqtop e1 cs = Some (Inr (out, e'))" "engine_ok e'" "m_S e' = m_S e1" by auto
    with e1 show ?thesis by (simp add: ASK)
  qed
qed

lemma recompute_unique:
  assumes "valid_top p1" "valid_top p2" "engine_ok e"
  shows "recompute p1 e = recompute p2 e"
proof -
  from recompute_spec [OF assms(1,3)] obtain d1 b1 where
    1: "recompute p1 e = Some (Inr \<lparr>m_g = ensureNode (m_g e) (m_S e), m_S = m_S e, m_dist = d1,
                       m_bestMax = b1, m_dirty = False\<rparr>)"
    "optimal (m_edges (m_g e)) (m_S e) d1 b1" "length d1 = recompute_size e" by blast
  from recompute_spec [OF assms(2,3)] obtain d2 b2 where
    2: "recompute p2 e = Some (Inr \<lparr>m_g = ensureNode (m_g e) (m_S e), m_S = m_S e, m_dist = d2,
                       m_bestMax = b2, m_dirty = False\<rparr>)"
    "optimal (m_edges (m_g e)) (m_S e) d2 b2" "length d2 = recompute_size e" by blast
  from optimal_unique [OF 1(2) 2(2)] 1(3) 2(3) have "d1 = d2 \<and> b1 = b2" by simp
  with 1(1) 2(1) show ?thesis by simp
qed

lemma ask_unique:
  assumes "valid_top p1" "valid_top p2" "engine_ok e" "t < 2 ^ 31 - 1"
  shows "ask p1 e t = ask p2 e t"
proof -
  have "engine_ok (growToInclude e t)" using assms(3,4) by (rule engine_ok_grow)
  from recompute_unique [OF assms(1,2) this] show ?thesis
    by (simp add: ask_def Let_def)
qed

lemma exec_unique:
  assumes T: "valid_top p1" "valid_top p2"
  shows "engine_ok e \<Longrightarrow> list_all cmd_ok cs \<Longrightarrow>
     int (length (m_edges (m_g e)) + length cs) < 2 ^ 31 \<Longrightarrow> exec p1 e cs = exec p2 e cs"
proof (induction cs arbitrary: e)
  case Nil
  then show ?case by simp
next
  case (Cons c cs)
  show ?case
  proof (cases c)
    case (ADD u v w)
    with Cons.prems have "0 \<le> u" "u < 2 ^ 31 - 1" "0 \<le> v" "v < 2 ^ 31 - 1" "0 \<le> w" "w \<le> INT_MAX"
      "int (length (m_edges (m_g e))) + 1 < 2 ^ 31"
      by simp_all
    from engine_ok_addEdgeCmd [OF Cons.prems(1) this] obtain e1 where
      e1: "addEdgeCmd e u v w = Inr e1" "engine_ok e1"
      "m_edges (m_g e1) = m_edges (m_g e) @ [Edge u v w True]" by blast
    have "int (length (m_edges (m_g e1)) + length cs) < 2 ^ 31"
      using Cons.prems(3) by (simp add: e1(3))
    from Cons.IH [OF e1(2) _ this] Cons.prems(2) e1(1) show ?thesis by (simp add: ADD)
  next
    case (REM u v w)
    from engine_ok_removeEdgeCmd [OF Cons.prems(1), of u v w] obtain e1 where
      e1: "removeEdgeCmd e u v w = Inr e1" "engine_ok e1"
      "length (m_edges (m_g e1)) = length (m_edges (m_g e))" by blast
    have "int (length (m_edges (m_g e1)) + length cs) < 2 ^ 31"
      using Cons.prems(3) by (simp add: e1(3))
    from Cons.IH [OF e1(2) _ this] Cons.prems(2) e1(1) show ?thesis by (simp add: REM)
  next
    case (ASK t)
    with Cons.prems have t: "0 \<le> t" "t < 2 ^ 31 - 1" by simp_all
    from ask_spec [OF T(1) Cons.prems(1) t] obtain r e1 where
      e1: "ask p1 e t = Some (Inr (r, e1))" "engine_ok e1"
      "m_edges (m_g e1) = m_edges (m_g e)" by blast
    have "int (length (m_edges (m_g e1)) + length cs) < 2 ^ 31"
      using Cons.prems(3) by (simp add: e1(3))
    moreover have "ask p2 e t = ask p1 e t"
      using ask_unique [OF T Cons.prems(1) t(2)] by simp
    moreover have "exec p1 e1 cs = exec p2 e1 cs"
      using Cons.IH [OF e1(2) _ \<open>int (length (m_edges (m_g e1)) + length cs) < 2 ^ 31\<close>] Cons.prems(2)
      by simp
    ultimately show ?thesis using e1(1) by (simp add: ASK)
  qed
qed

subsection \<open>Paths and the cache\<close>

lemma optimal_reachable:
  assumes "optimal es S dist best" "is_path es S p (int x)"
  shows "x < length dist \<and> 0 \<le> dist ! x \<and> dist ! x < LexiSSSP_INF \<and> 0 \<le> best ! x \<and>
         (\<exists>q. is_path es S q (int x) \<and> path_sum es q = dist ! x \<and> path_max es q = best ! x) \<and>
         (\<forall>p'. is_path es S p' (int x) \<longrightarrow> (dist ! x, best ! x) \<le> (path_sum es p', path_max es p'))"
proof -
  have "if x < length dist \<and> dist ! x \<noteq> LexiSSSP_INF
          then 0 \<le> dist ! x \<and> dist ! x < LexiSSSP_INF \<and> 0 \<le> best ! x \<and>
               (\<exists>p. is_path es S p (int x) \<and> path_sum es p = dist ! x \<and> path_max es p = best ! x) \<and>
               (\<forall>p. is_path es S p (int x) \<longrightarrow>
                    (dist ! x, best ! x) \<le> (path_sum es p, path_max es p))
          else (\<forall>p. \<not> is_path es S p (int x)) \<and> (x < length dist \<longrightarrow> best ! x = INT_MAX)"
    using assms(1) unfolding optimal_def by blast
  with assms(2) show ?thesis by (auto split: if_splits)
qed

lemma optimal_unreachable:
  assumes "optimal es S dist best" "\<forall>p. \<not> is_path es S p (int x)" "x < length dist"
  shows "dist ! x = LexiSSSP_INF \<and> best ! x = INT_MAX"
proof -
  have "if x < length dist \<and> dist ! x \<noteq> LexiSSSP_INF
          then 0 \<le> dist ! x \<and> dist ! x < LexiSSSP_INF \<and> 0 \<le> best ! x \<and>
               (\<exists>p. is_path es S p (int x) \<and> path_sum es p = dist ! x \<and> path_max es p = best ! x) \<and>
               (\<forall>p. is_path es S p (int x) \<longrightarrow>
                    (dist ! x, best ! x) \<le> (path_sum es p, path_max es p))
          else (\<forall>p. \<not> is_path es S p (int x)) \<and> (x < length dist \<longrightarrow> best ! x = INT_MAX)"
    using assms(1) unfolding optimal_def by blast
  with assms(2,3) show ?thesis by (auto split: if_splits)
qed

lemma is_path_bound: "is_path es a p b \<Longrightarrow> i \<in> set p \<Longrightarrow> i < length es"
  by (induction p arbitrary: a) auto

lemma is_path_append_edges: "is_path es a p b \<Longrightarrow> is_path (es @ xs) a p b"
  by (induction p arbitrary: a) (auto simp: nth_append)

lemma path_sum_append_edges:
  "\<forall>i\<in>set p. i < length es \<Longrightarrow> path_sum (es @ xs) p = path_sum es p"
  unfolding path_sum_def by (intro arg_cong [where f = sum_list] map_cong) (auto simp: nth_append)

lemma path_max_append_edges:
  "\<forall>i\<in>set p. i < length es \<Longrightarrow> path_max (es @ xs) p = path_max es p"
  unfolding path_max_def by (intro fold_cong) (auto simp: nth_append)

lemma path_target_range:
  assumes "adj_inv g" "is_path (m_edges g) S p t"
  shows "t = S \<or> (0 \<le> t \<and> nat t < length (m_adj g))"
proof (cases p rule: rev_cases)
  case Nil
  with assms(2) show ?thesis by simp
next
  case (snoc q i)
  with assms(2) have "i < length (m_edges g)" "edge_v (m_edges g ! i) = t"
    by (simp_all add: is_path_snoc)
  with assms(1) show ?thesis unfolding adj_inv_def by blast
qed

lemma addEdges_ok:
  "graph_ok g \<Longrightarrow> list_all (\<lambda>(u, v, w). cmd_ok (ADD u v w)) es \<Longrightarrow>
   int (length (m_edges g) + length es) < 2 ^ 31 \<Longrightarrow>
   \<exists>g'. addEdges g es = Inr g' \<and> graph_ok g' \<and> length (m_edges g') = length (m_edges g) + length es"
proof (induction es arbitrary: g)
  case Nil
  then show ?case by simp
next
  case (Cons x es)
  obtain u v w where x: "x = (u, v, w)" by (cases x) auto
  with Cons.prems have "0 \<le> u" "u < 2 ^ 31 - 1" "0 \<le> v" "v < 2 ^ 31 - 1" "0 \<le> w" "w \<le> INT_MAX"
    "int (length (m_edges g)) + 1 < 2 ^ 31"
    by simp_all
  from graph_ok_addEdge [OF Cons.prems(1) this] obtain g1 where
    g1: "addEdge g u v w = Inr (int (length (m_edges g)), g1)" "graph_ok g1"
    "m_edges g1 = m_edges g @ [Edge u v w True]" by blast
  have "int (length (m_edges g1) + length es) < 2 ^ 31"
    using Cons.prems(3) by (simp add: g1(3))
  from Cons.IH [OF g1(2) _ this] Cons.prems(2) g1(1,3) show ?case by (simp add: x)
qed

lemma G5_built:
  "\<exists>g0. DynamicDirectedGraph_init 5 = Inr g0 \<and>
     addEdges g0 [(1, 2, 3), (1, 3, 5), (2, 4, 4), (3, 4, 4), (4, 5, 6)] = Inr G5"
  by (simp add: DynamicDirectedGraph_init_def addEdge_def ensureNode_def at_index_def Let_def G5_def
      resize_def eval_nat_numeral)

lemma graph_ok_G5: "graph_ok G5"
proof -
  from G5_built obtain g0 where g0: "DynamicDirectedGraph_init 5 = Inr g0"
    "addEdges g0 [(1, 2, 3), (1, 3, 5), (2, 4, 4), (3, 4, 4), (4, 5, 6)] = Inr G5" by blast
  have "graph_ok g0" using graph_ok_init [of 5] g0(1) by simp
  moreover have "m_edges g0 = []"
    using g0(1) by (auto simp: DynamicDirectedGraph_init_def split: if_splits)
  moreover have "list_all (\<lambda>(u, v, w). cmd_ok (ADD u v w))
      [(1, 2, 3), (1, 3, 5), (2, 4, 4), (3, 4, 4), (4, 5, 6)]"
    by (simp add: INT_MAX_def)
  ultimately have "\<exists>g'. addEdges g0 [(1, 2, 3), (1, 3, 5), (2, 4, 4), (3, 4, 4), (4, 5, 6)] = Inr g' \<and>
      graph_ok g'"
    using addEdges_ok [of g0 "[(1, 2, 3), (1, 3, 5), (2, 4, 4), (3, 4, 4), (4, 5, 6)]"] by auto
  with g0(2) show ?thesis by auto
qed

lemma engine_ok_E5: "engine_ok E5"
  unfolding E5_def by (intro engine_ok_touch engine_ok_init graph_ok_G5) simp_all

subsection \<open>Queries and commands\<close>

lemmas eval_simps = runLexiEngine_def DynamicDirectedGraph_init_def addEdge_def removeEdge_def
      addEdgeCmd_def removeEdgeCmd_def ensureNode_def resize_def
      at_index_def Let_def touch_def LexiSSSP_init_def nodeCapacity_def ask_def growToInclude_def
      recompute_def recompute_loop.simps stale_def relax_def edgeById_def outEdges_def pq_less_def
      LexiSSSP_INF_def INT_MAX_def

text \<open>
  C1. For every engine state and every target \<open>t\<close> that some path of alive edges
  reaches from the source, \<open>ask\<close> returns the bottleneck of a path \<open>q\<close> such that every
  path to \<open>t\<close> has a strictly larger total weight than \<open>q\<close>, or the same total weight and a
  bottleneck that is not smaller: the result is the least bottleneck among the paths of
  least total weight, and a path of larger total weight is never preferred. In
  \<open>recompute\<close>, relaxing an alive edge replaces the label \<open>(d, b)\<close> of its target by the
  candidate \<open>(d', b')\<close> and pushes an entry exactly when \<open>d' < d\<close>, or \<open>d' = d\<close> and
  \<open>b' < b\<close>.
\<close>

theorem lexi_shortest_path:
  "(valid_top pqtop \<and> engine_ok e \<and> 0 \<le> t \<and> t < 2 ^ 31 - 1 \<and>
    is_path (m_edges (m_g e)) (m_S e) p t \<longrightarrow>
      (\<exists>r e' q. ask pqtop e t = Some (Inr (r, e')) \<and>
         is_path (m_edges (m_g e)) (m_S e) q t \<and> path_max (m_edges (m_g e)) q = r \<and>
         (\<forall>p'. is_path (m_edges (m_g e)) (m_S e) p' t \<longrightarrow>
            path_sum (m_edges (m_g e)) q < path_sum (m_edges (m_g e)) p' \<or>
            path_sum (m_edges (m_g e)) q = path_sum (m_edges (m_g e)) p' \<and>
            r \<le> path_max (m_edges (m_g e)) p'))) \<and>
   (edgeById g eid = Inr ed \<and> alive ed \<and>
    at_index dist (edge_v ed) = Inr d \<and> at_index best (edge_v ed) = Inr b \<and>
    - (2 ^ 63) \<le> pq_dist cur + edge_w ed \<and> pq_dist cur + edge_w ed < 2 ^ 63 \<longrightarrow>
      relax g cur eid (dist, best, pq) =
        Inr (if pq_dist cur + edge_w ed < d \<or>
                pq_dist cur + edge_w ed = d \<and> max (pq_bottleneck cur) (edge_w ed) < b
             then (dist[nat (edge_v ed) := pq_dist cur + edge_w ed],
                   best[nat (edge_v ed) := max (pq_bottleneck cur) (edge_w ed)],
                   pq @ [PQItem (pq_dist cur + edge_w ed) (max (pq_bottleneck cur) (edge_w ed))
                           (edge_v ed)])
             else (dist, best, pq)))"
proof (intro conjI impI)
  assume a: "valid_top pqtop \<and> engine_ok e \<and> 0 \<le> t \<and> t < 2 ^ 31 - 1 \<and>
    is_path (m_edges (m_g e)) (m_S e) p t"
  let ?es = "m_edges (m_g e)" and ?S = "m_S e"
  from a have T: "valid_top pqtop" and E: "engine_ok e" and t: "0 \<le> t" "t < 2 ^ 31 - 1"
    and p: "is_path ?es ?S p (int (nat t))" by simp_all
  from ask_spec [OF T E t] obtain r e' where
    r: "ask pqtop e t = Some (Inr (r, e'))"
    and o: "optimal ?es ?S (m_dist e') (m_bestMax e')"
    and v: "r = (if m_dist e' ! nat t = LexiSSSP_INF then - 1 else m_bestMax e' ! nat t)"
    by blast
  from optimal_reachable [OF o p] obtain q where
    f: "m_dist e' ! nat t < LexiSSSP_INF"
    and q: "is_path ?es ?S q (int (nat t))" "path_sum ?es q = m_dist e' ! nat t"
      "path_max ?es q = m_bestMax e' ! nat t"
    and m: "\<forall>p'. is_path ?es ?S p' (int (nat t)) \<longrightarrow>
      (m_dist e' ! nat t, m_bestMax e' ! nat t) \<le> (path_sum ?es p', path_max ?es p')"
    by blast
  from v f have r': "r = m_bestMax e' ! nat t" by simp
  have qt: "is_path ?es ?S q t" using q(1) t(1) by simp
  have qm: "path_max ?es q = r" using q(3) r' by simp
  have "\<forall>p'. is_path ?es ?S p' t \<longrightarrow>
          path_sum ?es q < path_sum ?es p' \<or> path_sum ?es q = path_sum ?es p' \<and> r \<le> path_max ?es p'"
    using m t(1) unfolding q(2) r' by auto
  with r qt qm show "\<exists>r e' q. ask pqtop e t = Some (Inr (r, e')) \<and>
         is_path ?es ?S q t \<and> path_max ?es q = r \<and>
         (\<forall>p'. is_path ?es ?S p' t \<longrightarrow>
            path_sum ?es q < path_sum ?es p' \<or> path_sum ?es q = path_sum ?es p' \<and> r \<le> path_max ?es p')"
    by blast
next
  assume "edgeById g eid = Inr ed \<and> alive ed \<and>
    at_index dist (edge_v ed) = Inr d \<and> at_index best (edge_v ed) = Inr b \<and>
    - (2 ^ 63) \<le> pq_dist cur + edge_w ed \<and> pq_dist cur + edge_w ed < 2 ^ 63"
  then show "relax g cur eid (dist, best, pq) =
        Inr (if pq_dist cur + edge_w ed < d \<or>
                pq_dist cur + edge_w ed = d \<and> max (pq_bottleneck cur) (edge_w ed) < b
             then (dist[nat (edge_v ed) := pq_dist cur + edge_w ed],
                   best[nat (edge_v ed) := max (pq_bottleneck cur) (edge_w ed)],
                   pq @ [PQItem (pq_dist cur + edge_w ed) (max (pq_bottleneck cur) (edge_w ed))
                           (edge_v ed)])
             else (dist, best, pq))"
    by (auto simp: relax_def Let_def)
qed

theorem lexi_shortest_path_witness:
  "valid_top first_top \<and> engine_ok E5 \<and> (0::int) \<le> 5 \<and> (5::int) < 2 ^ 31 - 1 \<and>
   is_path (m_edges (m_g E5)) (m_S E5) [0, 2, 4] 5 \<and>
   (\<exists>r e' q. ask first_top E5 5 = Some (Inr (r, e')) \<and>
      is_path (m_edges (m_g E5)) (m_S E5) q 5 \<and> path_max (m_edges (m_g E5)) q = r \<and>
      (\<forall>p'. is_path (m_edges (m_g E5)) (m_S E5) p' 5 \<longrightarrow>
         path_sum (m_edges (m_g E5)) q < path_sum (m_edges (m_g E5)) p' \<or>
         path_sum (m_edges (m_g E5)) q = path_sum (m_edges (m_g E5)) p' \<and>
         r \<le> path_max (m_edges (m_g E5)) p')) \<and>
   (\<exists>e'. ask first_top E5 5 = Some (Inr (6, e'))) \<and>
   edgeById G5 0 = Inr (Edge 1 2 3 True) \<and> alive (Edge 1 2 3 True) \<and>
   at_index [LexiSSSP_INF, 0, LexiSSSP_INF] (edge_v (Edge 1 2 3 True)) = Inr LexiSSSP_INF \<and>
   at_index [INT_MAX, 0, INT_MAX] (edge_v (Edge 1 2 3 True)) = Inr INT_MAX \<and>
   relax G5 (PQItem 0 0 1) 0 ([LexiSSSP_INF, 0, LexiSSSP_INF], [INT_MAX, 0, INT_MAX], [])
     = Inr ([LexiSSSP_INF, 0, 3], [INT_MAX, 0, 3], [PQItem 3 3 2])"
proof -
  have p: "is_path (m_edges (m_g E5)) (m_S E5) [0, 2, 4] 5"
    by (simp add: E5_def G5_def touch_def LexiSSSP_init_def)
  have a: "\<exists>e'. ask first_top E5 5 = Some (Inr (6, e'))"
    by (simp add: E5_def G5_def eval_simps)
  have h: "edgeById G5 0 = Inr (Edge 1 2 3 True)" "alive (Edge 1 2 3 True)"
    "at_index [LexiSSSP_INF, 0, LexiSSSP_INF] (edge_v (Edge 1 2 3 True)) = Inr LexiSSSP_INF"
    "at_index [INT_MAX, 0, INT_MAX] (edge_v (Edge 1 2 3 True)) = Inr INT_MAX"
    by (simp_all add: G5_def edgeById_def at_index_def)
  have ov: "- (2 ^ 63) \<le> pq_dist (PQItem 0 0 1) + edge_w (Edge 1 2 3 True)"
    "pq_dist (PQItem 0 0 1) + edge_w (Edge 1 2 3 True) < 2 ^ 63"
    by simp_all
  note w = lexi_shortest_path [of first_top E5 5 "[0, 2, 4]" G5 0 "Edge 1 2 3 True"
      "[LexiSSSP_INF, 0, LexiSSSP_INF]" LexiSSSP_INF "[INT_MAX, 0, INT_MAX]" INT_MAX "PQItem 0 0 1" "[]"]
  have r: "relax G5 (PQItem 0 0 1) 0 ([LexiSSSP_INF, 0, LexiSSSP_INF], [INT_MAX, 0, INT_MAX], [])
     = Inr ([LexiSSSP_INF, 0, 3], [INT_MAX, 0, 3], [PQItem 3 3 2])"
    using w h ov by (simp add: LexiSSSP_INF_def)
  show ?thesis
    using w first_top_valid engine_ok_E5 p a h r by simp
qed

text \<open>
  C7. For every engine state and every non-negative node \<open>t\<close>, \<open>ask\<close> returns \<open>-1\<close>
  exactly when no path of alive edges leads from the source to \<open>t\<close>, and a non-negative
  bottleneck otherwise. After an edge is added, if a path to \<open>t\<close> exists then \<open>ask\<close>
  returns a non-negative value, and so does every later \<open>ask\<close> for \<open>t\<close>.
\<close>

theorem unreachable_sentinel:
  assumes "valid_top pqtop" "engine_ok e" "0 \<le> t" "t < 2 ^ 31 - 1"
  shows "(\<exists>r e'. ask pqtop e t = Some (Inr (r, e')) \<and>
            (r = - 1 \<longleftrightarrow> \<not> (\<exists>p. is_path (m_edges (m_g e)) (m_S e) p t)) \<and>
            (r \<noteq> - 1 \<longrightarrow> 0 \<le> r)) \<and>
         (0 \<le> u \<and> u < 2 ^ 31 - 1 \<and> 0 \<le> v \<and> v < 2 ^ 31 - 1 \<and> 0 \<le> w \<and> w \<le> INT_MAX \<and>
          int (length (m_edges (m_g e))) + 1 < 2 ^ 31 \<longrightarrow>
            (\<exists>e2. addEdgeCmd e u v w = Inr e2 \<and>
               ((\<exists>p. is_path (m_edges (m_g e2)) (m_S e2) p t) \<longrightarrow>
                  (\<exists>r2 e3. ask pqtop e2 t = Some (Inr (r2, e3)) \<and> 0 \<le> r2 \<and>
                     ask pqtop e3 t = Some (Inr (r2, e3))))))"
proof -
  have main: "\<exists>r e'. ask pqtop e t = Some (Inr (r, e')) \<and>
            (r = - 1 \<longleftrightarrow> \<not> (\<exists>p. is_path (m_edges (m_g e)) (m_S e) p t)) \<and>
            (r \<noteq> - 1 \<longrightarrow> 0 \<le> r) \<and> ask pqtop e' t = Some (Inr (r, e'))"
    if E: "engine_ok e" for e
  proof -
    let ?es = "m_edges (m_g e)" and ?S = "m_S e"
    from ask_spec [OF assms(1) E assms(3,4)] obtain r e' where
      r: "ask pqtop e t = Some (Inr (r, e'))"
      and E': "engine_ok e'" "\<not> m_dirty e'"
      and o: "optimal ?es ?S (m_dist e') (m_bestMax e')"
      and l: "nat t < length (m_dist e')" "nat t < length (m_adj (m_g e'))"
      and v: "r = (if m_dist e' ! nat t = LexiSSSP_INF then - 1 else m_bestMax e' ! nat t)"
      by blast
    have it: "int (nat t) = t" using assms(3) by simp
    have "(r = - 1 \<longleftrightarrow> \<not> (\<exists>p. is_path ?es ?S p t)) \<and> (r \<noteq> - 1 \<longrightarrow> 0 \<le> r)"
    proof (cases "\<exists>p. is_path ?es ?S p t")
      case True
      then obtain p where "is_path ?es ?S p (int (nat t))" unfolding it by blast
      from optimal_reachable [OF o this] have "m_dist e' ! nat t < LexiSSSP_INF" "0 \<le> m_bestMax e' ! nat t"
        by simp_all
      with v True show ?thesis by simp
    next
      case False
      then have "\<forall>p. \<not> is_path ?es ?S p (int (nat t))" unfolding it by blast
      from optimal_unreachable [OF o this l(1)] v False show ?thesis by simp
    qed
    moreover have "ask pqtop e' t = Some (Inr (r, e'))"
    proof -
      have "length (m_bestMax e') = length (m_dist e')" using E'(1) by (simp add: engine_ok_def)
      then have "growToInclude e' t = e'"
        using l assms(3) by (intro growToInclude_covered) simp_all
      then show ?thesis
        using E'(2) l(1) v assms(3) \<open>length (m_bestMax e') = length (m_dist e')\<close>
        by (simp add: ask_def Let_def at_index_def)
    qed
    ultimately show ?thesis using r by blast
  qed
  have 1: "\<exists>r e'. ask pqtop e t = Some (Inr (r, e')) \<and>
            (r = - 1 \<longleftrightarrow> \<not> (\<exists>p. is_path (m_edges (m_g e)) (m_S e) p t)) \<and>
            (r \<noteq> - 1 \<longrightarrow> 0 \<le> r)"
    using main [OF assms(2)] by blast
  have 2: "\<exists>e2. addEdgeCmd e u v w = Inr e2 \<and>
               ((\<exists>p. is_path (m_edges (m_g e2)) (m_S e2) p t) \<longrightarrow>
                  (\<exists>r2 e3. ask pqtop e2 t = Some (Inr (r2, e3)) \<and> 0 \<le> r2 \<and>
                     ask pqtop e3 t = Some (Inr (r2, e3))))"
    if a: "0 \<le> u \<and> u < 2 ^ 31 - 1 \<and> 0 \<le> v \<and> v < 2 ^ 31 - 1 \<and> 0 \<le> w \<and> w \<le> INT_MAX \<and>
          int (length (m_edges (m_g e))) + 1 < 2 ^ 31"
  proof -
    from a have "0 \<le> u" "u < 2 ^ 31 - 1" "0 \<le> v" "v < 2 ^ 31 - 1" "0 \<le> w" "w \<le> INT_MAX"
      "int (length (m_edges (m_g e))) + 1 < 2 ^ 31" by simp_all
    from engine_ok_addEdgeCmd [OF assms(2) this] obtain e2 where
      e2: "addEdgeCmd e u v w = Inr e2" "engine_ok e2" by blast
    from main [OF e2(2)] obtain r2 e3 where
      "ask pqtop e2 t = Some (Inr (r2, e3))"
      "r2 = - 1 \<longleftrightarrow> \<not> (\<exists>p. is_path (m_edges (m_g e2)) (m_S e2) p t)" "r2 \<noteq> - 1 \<longrightarrow> 0 \<le> r2"
      "ask pqtop e3 t = Some (Inr (r2, e3))" by blast
    with e2(1) show ?thesis by auto
  qed
  from 1 2 show ?thesis by blast
qed

theorem unreachable_sentinel_witness:
  "valid_top first_top \<and> engine_ok E5 \<and> (0::int) \<le> 0 \<and> (0::int) < 2 ^ 31 - 1 \<and>
   (\<exists>r e'. ask first_top E5 0 = Some (Inr (r, e')) \<and>
            (r = - 1 \<longleftrightarrow> \<not> (\<exists>p. is_path (m_edges (m_g E5)) (m_S E5) p 0)) \<and> - 1 \<le> r) \<and>
   (\<exists>e'. ask first_top E5 0 = Some (Inr (- 1, e'))) \<and>
   (\<exists>e2. addEdgeCmd E5 1 0 9 = Inr e2 \<and> is_path (m_edges (m_g e2)) (m_S e2) [5] 0 \<and>
      (\<exists>r2 e3. ask first_top e2 0 = Some (Inr (r2, e3)) \<and> 0 \<le> r2 \<and>
                     ask first_top e3 0 = Some (Inr (r2, e3))))"
proof -
  note w = unreachable_sentinel [OF first_top_valid engine_ok_E5, of 0 1 0 9]
  have a: "\<exists>e'. ask first_top E5 0 = Some (Inr (- 1, e'))"
    by (simp add: E5_def G5_def eval_simps)
  have 1: "\<exists>r e'. ask first_top E5 0 = Some (Inr (r, e')) \<and>
            (r = - 1 \<longleftrightarrow> \<not> (\<exists>p. is_path (m_edges (m_g E5)) (m_S E5) p 0)) \<and> - 1 \<le> r"
    using w by fastforce
  from w obtain e2 where e2: "addEdgeCmd E5 1 0 9 = Inr e2"
    and i: "(\<exists>p. is_path (m_edges (m_g e2)) (m_S e2) p 0) \<longrightarrow>
                  (\<exists>r2 e3. ask first_top e2 0 = Some (Inr (r2, e3)) \<and> 0 \<le> r2 \<and>
                     ask first_top e3 0 = Some (Inr (r2, e3)))"
    by (auto simp: INT_MAX_def E5_def G5_def touch_def LexiSSSP_init_def)
  have p: "is_path (m_edges (m_g e2)) (m_S e2) [5] 0"
    using e2 by (auto simp: E5_def G5_def eval_simps)
  with i have "\<exists>r2 e3. ask first_top e2 0 = Some (Inr (r2, e3)) \<and> 0 \<le> r2 \<and>
                     ask first_top e3 0 = Some (Inr (r2, e3))" by blast
  with e2 p 1 a first_top_valid engine_ok_E5 show ?thesis by simp
qed

text \<open>
  C8. \<open>ask\<close> returns, clears the dirty flag, and asking again for the same target
  returns the same value and leaves the engine as it is. When the flag was set the
  first call is the recomputation on the grown engine; when it was clear the call only
  grows the vectors. A later \<open>ask\<close> for any target leaves the flag clear and every label
  present before as it was.
\<close>

theorem ask_cached:
  assumes "valid_top pqtop" "engine_ok e" "0 \<le> t" "t < 2 ^ 31 - 1"
  shows "\<exists>r e'. ask pqtop e t = Some (Inr (r, e')) \<and> \<not> m_dirty e' \<and>
     ask pqtop e' t = Some (Inr (r, e')) \<and>
     (m_dirty e \<longrightarrow> recompute pqtop (growToInclude e t) = Some (Inr e')) \<and>
     (\<not> m_dirty e \<longrightarrow> e' = growToInclude e t) \<and>
     (\<forall>t'. 0 \<le> t' \<longrightarrow>
        (\<exists>r' e''. ask pqtop e' t' = Some (Inr (r', e'')) \<and> \<not> m_dirty e'' \<and>
           (\<forall>x<length (m_dist e'). m_dist e'' ! x = m_dist e' ! x \<and>
                                      m_bestMax e'' ! x = m_bestMax e' ! x)))"
proof -
  from ask_spec [OF assms] obtain r e' where
    r: "ask pqtop e t = Some (Inr (r, e'))"
    and E': "engine_ok e'" "\<not> m_dirty e'"
    and l: "nat t < length (m_dist e')" "nat t < length (m_adj (m_g e'))"
    and v: "r = (if m_dist e' ! nat t = LexiSSSP_INF then - 1 else m_bestMax e' ! nat t)"
    by blast
  have lb: "length (m_bestMax e') = length (m_dist e')" using E'(1) by (simp add: engine_ok_def)
  have again: "ask pqtop e' t = Some (Inr (r, e'))"
  proof -
    have "growToInclude e' t = e'"
      using l assms(3) lb by (intro growToInclude_covered) simp_all
    then show ?thesis
      using E'(2) l(1) v assms(3) lb by (simp add: ask_def Let_def at_index_def)
  qed
  have first: "(m_dirty e \<longrightarrow> recompute pqtop (growToInclude e t) = Some (Inr e')) \<and>
     (\<not> m_dirty e \<longrightarrow> e' = growToInclude e t)"
    using r by (auto simp: ask_def Let_def split: option.splits sum.splits if_splits)
  have later: "\<exists>r' e''. ask pqtop e' t' = Some (Inr (r', e'')) \<and> \<not> m_dirty e'' \<and>
           (\<forall>x<length (m_dist e'). m_dist e'' ! x = m_dist e' ! x \<and>
                                      m_bestMax e'' ! x = m_bestMax e' ! x)"
    if t': "0 \<le> t'" for t'
  proof -
    let ?e = "growToInclude e' t'"
    have n: "nat t' < length (m_dist ?e)" "length (m_bestMax ?e) = length (m_dist ?e)"
      using t' lb by (simp_all add: growToInclude_dist growToInclude_bestMax)
    have "ask pqtop e' t' =
        Some (Inr (if m_dist ?e ! nat t' = LexiSSSP_INF then - 1 else m_bestMax ?e ! nat t', ?e))"
      using E'(2) n t' by (simp add: ask_def Let_def at_index_def)
    moreover have "\<forall>x<length (m_dist e'). m_dist ?e ! x = m_dist e' ! x \<and>
                                      m_bestMax ?e ! x = m_bestMax e' ! x"
      using lb by (simp add: growToInclude_dist growToInclude_bestMax nth_append)
    ultimately show ?thesis using E'(2) by simp
  qed
  from r E'(2) again first later show ?thesis by blast
qed

theorem ask_cached_witness:
  "valid_top first_top \<and> engine_ok E5 \<and> (0::int) \<le> 5 \<and> (5::int) < 2 ^ 31 - 1 \<and> m_dirty E5 \<and>
   (\<exists>e'. ask first_top E5 5 = Some (Inr (6, e')) \<and> \<not> m_dirty e' \<and>
      ask first_top e' 5 = Some (Inr (6, e')) \<and>
      recompute first_top (growToInclude E5 5) = Some (Inr e') \<and>
      (\<exists>e''. ask first_top e' 4 = Some (Inr (4, e'')) \<and> \<not> m_dirty e'' \<and>
         m_dist e'' = m_dist e' \<and> m_bestMax e'' = m_bestMax e'))"
proof -
  have d: "m_dirty E5" by (simp add: E5_def touch_def)
  from ask_cached [OF first_top_valid engine_ok_E5, of 5] d obtain r e' where
    r: "ask first_top E5 5 = Some (Inr (r, e'))" "\<not> m_dirty e'" "ask first_top e' 5 = Some (Inr (r, e'))"
    "recompute first_top (growToInclude E5 5) = Some (Inr e')"
    by auto
  have a: "\<exists>e'. ask first_top E5 5 = Some (Inr (6, e')) \<and>
      (\<exists>e''. ask first_top e' 4 = Some (Inr (4, e'')) \<and> \<not> m_dirty e'' \<and>
         m_dist e'' = m_dist e' \<and> m_bestMax e'' = m_bestMax e')"
    by (simp add: E5_def G5_def eval_simps)
  with r have "r = 6" by auto
  with r a first_top_valid engine_ok_E5 d show ?thesis by auto
qed

text \<open>
  C10. After every sequence of commands with non-negative node ids and weights, run
  on an engine with a non-negative source, \<open>ask\<close> for the source itself returns \<open>0\<close>.
\<close>

theorem ask_source_zero:
  assumes "valid_top pqtop" "engine_ok e" "list_all cmd_ok cs"
    and "int (length (m_edges (m_g e)) + length cs) < 2 ^ 31"
  shows "\<exists>out e1 e2. exec pqtop e cs = Some (Inr (out, e1)) \<and>
           ask pqtop e1 (m_S e) = Some (Inr (0, e2))"
proof -
  from exec_ok [OF assms] obtain out e1 where
    x: "exec pqtop e cs = Some (Inr (out, e1))" and E1: "engine_ok e1" and S: "m_S e1 = m_S e"
    by blast
  let ?S = "m_S e" and ?es = "m_edges (m_g e1)"
  have s: "0 \<le> ?S" "?S < 2 ^ 31 - 1" using assms(2) by (simp_all add: engine_ok_def)
  from ask_spec [OF assms(1) E1 s] obtain r e2 where
    r: "ask pqtop e1 ?S = Some (Inr (r, e2))"
    and o: "optimal ?es ?S (m_dist e2) (m_bestMax e2)"
    and v: "r = (if m_dist e2 ! nat ?S = LexiSSSP_INF then - 1 else m_bestMax e2 ! nat ?S)"
    unfolding S by blast
  have p: "is_path ?es ?S [] (int (nat ?S))" using s(1) by simp
  from optimal_reachable [OF o p] have f: "m_dist e2 ! nat ?S < LexiSSSP_INF"
    "0 \<le> m_dist e2 ! nat ?S" "0 \<le> m_bestMax e2 ! nat ?S"
    and m: "\<forall>p'. is_path ?es ?S p' (int (nat ?S)) \<longrightarrow>
      (m_dist e2 ! nat ?S, m_bestMax e2 ! nat ?S) \<le> (path_sum ?es p', path_max ?es p')"
    by simp_all
  from m p have "(m_dist e2 ! nat ?S, m_bestMax e2 ! nat ?S) \<le> (path_sum ?es [], path_max ?es [])"
    by blast
  with f have "m_bestMax e2 ! nat ?S = 0" by auto
  with v f(1) have "r = 0" by simp
  with x r show ?thesis by blast
qed

theorem ask_source_zero_witness:
  "valid_top first_top \<and> engine_ok E5 \<and> list_all cmd_ok [ADD 1 5 100, ASK 5, REM 4 5 6] \<and>
   int (length (m_edges (m_g E5)) + length [ADD 1 5 100, ASK 5, REM 4 5 6]) < 2 ^ 31 \<and>
   (\<exists>out e1 e2. exec first_top E5 [ADD 1 5 100, ASK 5, REM 4 5 6] = Some (Inr (out, e1)) \<and>
           ask first_top e1 (m_S E5) = Some (Inr (0, e2)))"
proof -
  have c: "list_all cmd_ok [ADD 1 5 100, ASK 5, REM 4 5 6]"
    by (simp add: INT_MAX_def)
  have n: "int (length (m_edges (m_g E5)) + length [ADD 1 5 100, ASK 5, REM 4 5 6]) < 2 ^ 31"
    by (simp add: E5_def G5_def touch_def LexiSSSP_init_def)
  from ask_source_zero [OF first_top_valid engine_ok_E5 c n] first_top_valid engine_ok_E5 c n
  show ?thesis by simp
qed

lemma runLexiEngine_unique:
  assumes T: "valid_top p1" "valid_top p2"
    and N: "0 \<le> N + 1" "N < 2 ^ 31 - 1"
    and es: "list_all (\<lambda>(u, v, w). cmd_ok (ADD u v w)) es"
    and S: "0 \<le> S" "S < 2 ^ 31 - 1"
    and cs: "list_all cmd_ok cs"
    and n: "int (length es + length cs) < 2 ^ 31"
  shows "runLexiEngine p1 N es S cs = runLexiEngine p2 N es S cs"
proof -
  from graph_ok_init [OF N] obtain g0 where
    g0: "DynamicDirectedGraph_init N = Inr g0" "graph_ok g0" by blast
  have e0: "m_edges g0 = []"
    using g0(1) by (auto simp: DynamicDirectedGraph_init_def split: if_splits)
  have "int (length (m_edges g0) + length es) < 2 ^ 31" using n by (simp add: e0)
  from addEdges_ok [OF g0(2) es this] obtain g where
    g: "addEdges g0 es = Inr g" "graph_ok g" "length (m_edges g) = length es"
    by (auto simp: e0)
  have "engine_ok (touch (LexiSSSP_init g S))"
    using g(2) S by (intro engine_ok_touch engine_ok_init)
  moreover have "int (length (m_edges (m_g (touch (LexiSSSP_init g S)))) + length cs) < 2 ^ 31"
    using n by (simp add: touch_def LexiSSSP_init_def g(3))
  ultimately have "exec p1 (touch (LexiSSSP_init g S)) cs = exec p2 (touch (LexiSSSP_init g S)) cs"
    using exec_unique [OF T _ cs] by blast
  then show ?thesis
    by (simp add: runLexiEngine_def g0(1) g(1))
qed

text \<open>
  C3. The scenario of the test \<open>sample1\<close>: nodes up to 5, the five edges
  \<open>(1, 2, 3)\<close>, \<open>(1, 3, 5)\<close>, \<open>(2, 4, 4)\<close>, \<open>(3, 4, 4)\<close>, \<open>(4, 5, 6)\<close>, source 1. The queries
  answer 6, 6, 100, 7 and 4 in this order; the first query leaves distance 13 for node 5,
  and at the end node 4 has distance 7 and node 5 distance 12.
\<close>

theorem sample1_scenario:
  assumes "valid_top pqtop"
  shows "(\<exists>e. runLexiEngine pqtop 5 [(1, 2, 3), (1, 3, 5), (2, 4, 4), (3, 4, 4), (4, 5, 6)] 1
            [ASK 5] = Some (Inr ([6], e)) \<and> m_dist e ! 5 = 13 \<and> m_bestMax e ! 5 = 6) \<and>
         (\<exists>e. runLexiEngine pqtop 5 [(1, 2, 3), (1, 3, 5), (2, 4, 4), (3, 4, 4), (4, 5, 6)] 1
            [ASK 5, ADD 1 5 100, ASK 5, REM 4 5 6, ASK 5, ADD 3 5 7, ASK 5, ASK 4]
              = Some (Inr ([6, 6, 100, 7, 4], e)) \<and>
            m_dist e ! 4 = 7 \<and> m_bestMax e ! 4 = 4 \<and> m_dist e ! 5 = 12 \<and> m_bestMax e ! 5 = 7)"
proof -
  let ?es = "[(1, 2, 3), (1, 3, 5), (2, 4, 4), (3, 4, 4), (4, 5, 6)] :: (int \<times> int \<times> int) list"
  let ?cs = "[ASK 5, ADD 1 5 100, ASK 5, REM 4 5 6, ASK 5, ADD 3 5 7, ASK 5, ASK 4]"
  have es: "list_all (\<lambda>(u, v, w). cmd_ok (ADD u v w)) ?es"
    by (simp add: INT_MAX_def)
  have u: "runLexiEngine pqtop 5 ?es 1 cs = runLexiEngine first_top 5 ?es 1 cs"
    if "list_all cmd_ok cs" "length cs \<le> 8" for cs
    by (rule runLexiEngine_unique [OF assms first_top_valid _ _ es _ _ that(1)])
      (use that(2) in simp_all)
  have 1: "runLexiEngine pqtop 5 ?es 1 [ASK 5] = runLexiEngine first_top 5 ?es 1 [ASK 5]"
    by (rule u) simp_all
  have 2: "runLexiEngine pqtop 5 ?es 1 ?cs = runLexiEngine first_top 5 ?es 1 ?cs"
    by (rule u) (simp_all add: INT_MAX_def)
  have a: "\<exists>e. runLexiEngine first_top 5 ?es 1 [ASK 5] = Some (Inr ([6], e)) \<and>
             m_dist e ! 5 = 13 \<and> m_bestMax e ! 5 = 6"
    by (simp add: eval_simps)
  have b: "\<exists>e. runLexiEngine first_top 5 ?es 1 ?cs = Some (Inr ([6, 6, 100, 7, 4], e)) \<and>
            m_dist e ! 4 = 7 \<and> m_bestMax e ! 4 = 4 \<and> m_dist e ! 5 = 12 \<and> m_bestMax e ! 5 = 7"
    by (simp add: eval_simps)
  from a b show ?thesis unfolding 1 2 by blast
qed

theorem sample1_scenario_witness:
  "valid_top first_top \<and>
   (\<exists>e. runLexiEngine first_top 5 [(1, 2, 3), (1, 3, 5), (2, 4, 4), (3, 4, 4), (4, 5, 6)] 1
            [ASK 5, ADD 1 5 100, ASK 5, REM 4 5 6, ASK 5, ADD 3 5 7, ASK 5, ASK 4]
              = Some (Inr ([6, 6, 100, 7, 4], e)))"
  using sample1_scenario [OF first_top_valid] first_top_valid by blast

text \<open>
  C2 as stated fails: adding an edge can raise the value that \<open>ask\<close> reports. With the
  edges \<open>(1, 2, 1)\<close>, \<open>(2, 3, 1)\<close>, \<open>(3, 4, 1)\<close> and source 1, node 4 has distance 3 and
  bottleneck 1; after adding \<open>(1, 4, 2)\<close> it has distance 2 and bottleneck 2.
\<close>

theorem add_raises_bottleneck:
  "(\<exists>e. runLexiEngine first_top 4 [(1, 2, 1), (2, 3, 1), (3, 4, 1)] 1 [ASK 4, ADD 1 4 2, ASK 4]
      = Some (Inr ([1, 2], e))) \<and> \<not> (2::int) \<le> 1"
  by (simp add: eval_simps)

text \<open>
  C2, amended. Adding an edge never raises the label of a node in the lexicographic
  order on (distance, bottleneck), an unreachable node having the distance
  \<open>LexiSSSP_INF\<close>: for every node the cached distance after the addition and the next
  query is at most the one before, and where the distance is the same the bottleneck is
  at most the one before; for the queried node \<open>ask\<close> then reports a value that is at
  most the one before.
\<close>

theorem add_lowers_labels:
  assumes "valid_top pqtop" "engine_ok e" "0 \<le> t" "t < 2 ^ 31 - 1"
    and "0 \<le> u" "u < 2 ^ 31 - 1" "0 \<le> v" "v < 2 ^ 31 - 1" "0 \<le> w" "w \<le> INT_MAX"
    and "int (length (m_edges (m_g e))) + 1 < 2 ^ 31"
  shows "\<exists>r1 e1 e2 r2 e3. ask pqtop e t = Some (Inr (r1, e1)) \<and> addEdgeCmd e1 u v w = Inr e2 \<and>
     ask pqtop e2 t = Some (Inr (r2, e3)) \<and>
     (\<forall>x<length (m_dist e1). m_dist e3 ! x \<le> m_dist e1 ! x \<and>
        (m_dist e3 ! x = m_dist e1 ! x \<longrightarrow> m_bestMax e3 ! x \<le> m_bestMax e1 ! x)) \<and>
     (m_dist e3 ! nat t = m_dist e1 ! nat t \<longrightarrow> r2 \<le> r1)"
proof -
  from ask_spec [OF assms(1-4)] obtain r1 e1 where
    0: "m_S e1 = m_S e" "m_edges (m_g e1) = m_edges (m_g e)"
    "optimal (m_edges (m_g e)) (m_S e) (m_dist e1) (m_bestMax e1)" and
    1: "ask pqtop e t = Some (Inr (r1, e1))" "engine_ok e1"
    "nat t < length (m_dist e1)"
    "r1 = (if m_dist e1 ! nat t = LexiSSSP_INF then - 1 else m_bestMax e1 ! nat t)"
    by blast
  from 0 have o1: "optimal (m_edges (m_g e1)) (m_S e1) (m_dist e1) (m_bestMax e1)" by simp
  have "int (length (m_edges (m_g e1))) + 1 < 2 ^ 31" using assms(11) 0(2) by simp
  from engine_ok_addEdgeCmd [OF 1(2) assms(5-10) this] obtain e2 where
    2: "addEdgeCmd e1 u v w = Inr e2" "engine_ok e2" "m_S e2 = m_S e1"
    "m_edges (m_g e2) = m_edges (m_g e1) @ [Edge u v w True]"
    "length (m_dist e1) \<le> length (m_dist e2)"
    by blast
  from ask_spec [OF assms(1) 2(2) assms(3,4)] obtain r2 e3 where
    3: "ask pqtop e2 t = Some (Inr (r2, e3))"
    "optimal (m_edges (m_g e2)) (m_S e2) (m_dist e3) (m_bestMax e3)"
    "length (m_dist e2) \<le> length (m_dist e3)"
    "r2 = (if m_dist e3 ! nat t = LexiSSSP_INF then - 1 else m_bestMax e3 ! nat t)"
    by blast
  let ?es = "m_edges (m_g e1)" and ?S = "m_S e1"
  let ?es' = "?es @ [Edge u v w True]"
  note o3 = 3(2) [unfolded 2(3,4)]
  have lab: "m_dist e3 ! x \<le> m_dist e1 ! x \<and>
        (m_dist e3 ! x = m_dist e1 ! x \<longrightarrow> m_bestMax e3 ! x \<le> m_bestMax e1 ! x)"
    if x: "x < length (m_dist e1)" for x
  proof (cases "\<exists>p. is_path ?es ?S p (int x)")
    case True
    then obtain p where "is_path ?es ?S p (int x)" by blast
    from optimal_reachable [OF o1 this] obtain q where
      q: "is_path ?es ?S q (int x)" "path_sum ?es q = m_dist e1 ! x" "path_max ?es q = m_bestMax e1 ! x"
      by blast
    have b: "\<forall>i\<in>set q. i < length ?es" using is_path_bound [OF q(1)] by blast
    have q': "is_path ?es' ?S q (int x)" using q(1) by (rule is_path_append_edges)
    from optimal_reachable [OF o3 q'] q' have
      "(m_dist e3 ! x, m_bestMax e3 ! x) \<le> (path_sum ?es' q, path_max ?es' q)" by blast
    then show ?thesis
      unfolding path_sum_append_edges [OF b] path_max_append_edges [OF b] q(2,3) by auto
  next
    case False
    then have n: "\<forall>p. \<not> is_path ?es ?S p (int x)" by blast
    from optimal_unreachable [OF o1 n x] have i: "m_dist e1 ! x = LexiSSSP_INF" "m_bestMax e1 ! x = INT_MAX"
      by simp_all
    have x3: "x < length (m_dist e3)" using x 2(5) 3(3) by simp
    show ?thesis
    proof (cases "\<exists>p. is_path ?es' ?S p (int x)")
      case True
      then obtain p where "is_path ?es' ?S p (int x)" by blast
      from optimal_reachable [OF o3 this] have "m_dist e3 ! x < LexiSSSP_INF" by blast
      with i show ?thesis by simp
    next
      case False
      then have "\<forall>p. \<not> is_path ?es' ?S p (int x)" by blast
      from optimal_unreachable [OF o3 this x3] i show ?thesis by simp
    qed
  qed
  have "r2 \<le> r1" if "m_dist e3 ! nat t = m_dist e1 ! nat t"
    using lab [OF 1(3)] that unfolding 1(4) 3(4) by simp
  with 1(1) 2(1) 3(1) lab show ?thesis by blast
qed

theorem add_lowers_labels_witness:
  "valid_top first_top \<and> engine_ok E5 \<and> (0::int) \<le> 5 \<and> (5::int) < 2 ^ 31 - 1 \<and>
   (0::int) \<le> 3 \<and> (3::int) < 2 ^ 31 - 1 \<and> (7::int) \<le> INT_MAX \<and>
   int (length (m_edges (m_g E5))) + 1 < 2 ^ 31 \<and>
   (\<exists>r1 e1 e2 r2 e3. ask first_top E5 5 = Some (Inr (r1, e1)) \<and> addEdgeCmd e1 3 5 7 = Inr e2 \<and>
     ask first_top e2 5 = Some (Inr (r2, e3)) \<and> m_dist e3 ! 5 \<le> m_dist e1 ! 5 \<and>
     (m_dist e3 ! nat 5 = m_dist e1 ! nat 5 \<longrightarrow> r2 \<le> r1))"
proof -
  have i: "(7::int) \<le> INT_MAX" "int (length (m_edges (m_g E5))) + 1 < 2 ^ 31"
    by (simp_all add: INT_MAX_def E5_def G5_def touch_def LexiSSSP_init_def)
  from add_lowers_labels [OF first_top_valid engine_ok_E5, of 5 3 5 7] i obtain r1 e1 e2 r2 e3 where
    a: "ask first_top E5 5 = Some (Inr (r1, e1))" "addEdgeCmd e1 3 5 7 = Inr e2"
    "ask first_top e2 5 = Some (Inr (r2, e3))"
    "\<forall>x<length (m_dist e1). m_dist e3 ! x \<le> m_dist e1 ! x \<and>
        (m_dist e3 ! x = m_dist e1 ! x \<longrightarrow> m_bestMax e3 ! x \<le> m_bestMax e1 ! x)"
    "m_dist e3 ! nat 5 = m_dist e1 ! nat 5 \<longrightarrow> r2 \<le> r1"
    by auto
  have "\<exists>e'. ask first_top E5 5 = Some (Inr (6, e')) \<and> length (m_dist e') = 6"
    by (simp add: E5_def G5_def eval_simps)
  with a(1) have "length (m_dist e1) = 6" by auto
  with a(4) have "m_dist e3 ! 5 \<le> m_dist e1 ! 5" by simp
  with a first_top_valid engine_ok_E5 i show ?thesis by auto
qed

lemma graph_ok_G0: "graph_ok G0"
  using graph_ok_init [of 1] G0_init by simp

lemma ask_negative:
  assumes "valid_top pqtop" "engine_ok e" "x < 0"
  shows "ask pqtop e x = Some (Inl OutOfBounds)"
proof -
  have g: "growToInclude e x = e" using assms(3) by (simp add: growToInclude_def)
  from recompute_spec [OF assms(1,2)] obtain e' where "recompute pqtop e = Some (Inr e')"
    by blast
  then show ?thesis
    using assms(3) by (simp add: ask_def g at_index_def)
qed

text \<open>
  C4 as stated fails for \<open>ask\<close>. A query for a node beyond the capacity grows the store,
  which \<open>nodeCapacity\<close> shows: on the empty graph of capacity 1 with source 0, \<open>ask\<close> for
  node 3 returns \<open>-1\<close> and leaves capacity 3. And a source beyond the capacity is
  reachable: with source 5 on the same graph, \<open>ask\<close> for node 5 returns 0.
\<close>

theorem ask_grows_capacity:
  "(\<exists>e'. ask first_top (LexiSSSP_init G0 0) 3 = Some (Inr (- 1, e')) \<and>
      nodeCapacity (m_g e') = 3) \<and>
   nodeCapacity (m_g (LexiSSSP_init G0 0)) = 1 \<and>
   length (m_adj G0) \<le> nat 5 \<and>
   (\<exists>e'. ask first_top (LexiSSSP_init G0 5) 5 = Some (Inr (0, e')))"
  by (simp add: G0_def eval_simps)

text \<open>
  C4, amended. \<open>outEdges\<close> returns the empty sequence for every negative node id and
  every id beyond the capacity; it is a function of the store and changes nothing. For
  every non-negative node id beyond the capacity, other than the source, \<open>ask\<close> returns
  \<open>-1\<close>; it keeps the edge records and the source, and grows the capacity to cover the id.
\<close>

theorem read_out_of_range:
  "(x < 0 \<or> length (m_adj g) \<le> nat x \<longrightarrow> outEdges g x = []) \<and>
   (valid_top pqtop \<and> engine_ok e \<and> 0 \<le> x \<and> x < 2 ^ 31 - 1 \<and>
    length (m_adj (m_g e)) \<le> nat x \<and> x \<noteq> m_S e \<longrightarrow>
      (\<exists>e'. ask pqtop e x = Some (Inr (- 1, e')) \<and> m_edges (m_g e') = m_edges (m_g e) \<and>
         m_S e' = m_S e \<and> x \<le> nodeCapacity (m_g e')))"
proof (intro conjI impI)
  assume "x < 0 \<or> length (m_adj g) \<le> nat x"
  then show "outEdges g x = []" by (auto simp: outEdges_def)
next
  assume a: "valid_top pqtop \<and> engine_ok e \<and> 0 \<le> x \<and> x < 2 ^ 31 - 1 \<and>
    length (m_adj (m_g e)) \<le> nat x \<and> x \<noteq> m_S e"
  then have T: "valid_top pqtop" and E: "engine_ok e" and x: "0 \<le> x" "x < 2 ^ 31 - 1"
    and far: "length (m_adj (m_g e)) \<le> nat x" "x \<noteq> m_S e" by simp_all
  from ask_spec [OF T E x] obtain r e' where
    r: "ask pqtop e x = Some (Inr (r, e'))" "m_S e' = m_S e" "m_edges (m_g e') = m_edges (m_g e)"
    and o: "optimal (m_edges (m_g e)) (m_S e) (m_dist e') (m_bestMax e')"
    and l: "nat x < length (m_dist e')" "nat x < length (m_adj (m_g e'))"
    and v: "r = (if m_dist e' ! nat x = LexiSSSP_INF then - 1 else m_bestMax e' ! nat x)"
    by blast
  have A: "adj_inv (m_g e)" using E by (simp add: engine_ok_def graph_ok_def)
  have "\<not> is_path (m_edges (m_g e)) (m_S e) p (int (nat x))" for p
    using path_target_range [OF A, of "m_S e" p "int (nat x)"] far x(1) by auto
  then have "\<forall>p. \<not> is_path (m_edges (m_g e)) (m_S e) p (int (nat x))" by blast
  from optimal_unreachable [OF o this l(1)] v have "r = - 1" by simp
  moreover have "x \<le> nodeCapacity (m_g e')" using l(2) x(1) by (simp add: nodeCapacity_def)
  ultimately show "\<exists>e'. ask pqtop e x = Some (Inr (- 1, e')) \<and> m_edges (m_g e') = m_edges (m_g e) \<and>
         m_S e' = m_S e \<and> x \<le> nodeCapacity (m_g e')"
    using r by blast
qed

theorem read_out_of_range_witness:
  "length (m_adj G0) \<le> nat 3 \<and> outEdges G0 3 = [] \<and> outEdges G0 (- 1) = [] \<and>
   valid_top first_top \<and> engine_ok (LexiSSSP_init G0 0) \<and> (0::int) \<le> 3 \<and> (3::int) < 2 ^ 31 - 1 \<and>
   length (m_adj (m_g (LexiSSSP_init G0 0))) \<le> nat 3 \<and> 3 \<noteq> m_S (LexiSSSP_init G0 0) \<and>
   (\<exists>e'. ask first_top (LexiSSSP_init G0 0) 3 = Some (Inr (- 1, e')) \<and>
      m_edges (m_g e') = m_edges (m_g (LexiSSSP_init G0 0)) \<and> 3 \<le> nodeCapacity (m_g e'))"
proof -
  have E: "engine_ok (LexiSSSP_init G0 0)"
    by (intro engine_ok_init graph_ok_G0) simp_all
  have h: "length (m_adj G0) \<le> nat 3" "length (m_adj (m_g (LexiSSSP_init G0 0))) \<le> nat 3"
    "3 \<noteq> m_S (LexiSSSP_init G0 0)"
    by (simp_all add: G0_def LexiSSSP_init_def)
  from read_out_of_range [of 3 G0 first_top "LexiSSSP_init G0 0"]
    read_out_of_range [of "- 1" G0 first_top "LexiSSSP_init G0 0"] first_top_valid E h
  show ?thesis by auto
qed

end
